theory Spec2Isabelle
  imports Complex_Main "HOL-Library.AList" "HOL-Library.Sublist" "HOL-Library.Multiset"
begin

section \<open>Timetable CSP solver (PS2/csp\_timetable.py)\<close>

text \<open>
  A shallow embedding of the backtracking timetable solver.  Python dictionaries whose
  iteration order is observable (the partial assignment) are association lists with
  distinct keys, updated the way a Python dict is (an existing key keeps its position, a
  new key is appended).  Dictionaries that are only indexed (the domains, the course table,
  the saved domains of one forward-checking step) are maps.  A failed dictionary lookup is
  the value \<open>Inl KeyError\<close>.
\<close>

subsection \<open>Data model\<close>

record course =
  cid :: string
  teacher :: string
  groups :: "string list"
  csize :: int

record room =
  rid :: string
  capacity :: int

type_synonym val = "string \<times> string"
  \<comment> \<open>a candidate value: (timeslot, room id)\<close>

type_synonym assignment_t = "(string \<times> val) list"

type_synonym domains_t = "string \<rightharpoonup> val list"

datatype error = KeyError | OutOfFuel

subsection \<open>build\_domains\<close>

text \<open>
  For every course, all (timeslot, room id) pairs whose room is large enough, timeslots in
  the outer loop and rooms in the inner loop.  A later course with the same id overwrites
  the entry of an earlier one.
\<close>

definition course_domain :: "course \<Rightarrow> string list \<Rightarrow> room list \<Rightarrow> val list" where
  "course_domain c timeslots rooms =
     [(ts, rid r). ts \<leftarrow> timeslots, r \<leftarrow> rooms, capacity r \<ge> csize c]"

definition build_domains :: "course list \<Rightarrow> string list \<Rightarrow> room list \<Rightarrow> domains_t" where
  "build_domains courses timeslots rooms =
     foldl (\<lambda>doms c. doms(cid c \<mapsto> course_domain c timeslots rooms)) Map.empty courses"

subsection \<open>violates\<close>

text \<open>
  The loop over \<open>assignment.items()\<close>, in insertion order.  The course of the variable is
  looked up before the loop starts, the course of an assigned variable only when its
  timeslot equals the candidate's.
\<close>

fun violates_loop :: "(string \<rightharpoonup> course) \<Rightarrow> course \<Rightarrow> val \<Rightarrow> assignment_t \<Rightarrow> error + bool" where
  "violates_loop course_by_id c v [] = Inr False"
| "violates_loop course_by_id c v ((other_id, (ots, oroom)) # rest) =
     (if ots \<noteq> fst v then violates_loop course_by_id c v rest
      else case course_by_id other_id of
        None \<Rightarrow> Inl KeyError
      | Some other \<Rightarrow>
          if teacher other = teacher c then Inr True
          else if set (groups other) \<inter> set (groups c) \<noteq> {} then Inr True
          else if oroom = snd v then Inr True
          else violates_loop course_by_id c v rest)"

definition violates :: "assignment_t \<Rightarrow> (string \<rightharpoonup> course) \<Rightarrow> string \<Rightarrow> val \<Rightarrow> error + bool" where
  "violates asg course_by_id course_id v =
     (case course_by_id course_id of
        None \<Rightarrow> Inl KeyError
      | Some c \<Rightarrow> violates_loop course_by_id c v asg)"

subsection \<open>select\_mrv\<close>

fun select_mrv_loop :: "domains_t \<Rightarrow> string option \<Rightarrow> nat \<Rightarrow> string list \<Rightarrow> error + string option" where
  "select_mrv_loop doms best best_size [] = Inr best"
| "select_mrv_loop doms best best_size (var # rest) =
     (case doms var of
        None \<Rightarrow> Inl KeyError
      | Some d \<Rightarrow>
          if length d < best_size then select_mrv_loop doms (Some var) (length d) rest
          else select_mrv_loop doms best best_size rest)"

definition select_mrv :: "string list \<Rightarrow> domains_t \<Rightarrow> error + string option" where
  "select_mrv unassigned doms = select_mrv_loop doms None (10 ^ 9) unassigned"

subsection \<open>lcv\_order\<close>

text \<open>
  \<open>lcv_scan\<close> is the innermost loop over the domain of one other variable: it answers
  whether the loop left through one of its two \<open>elim += 1; break\<close> exits.
  \<open>lcv_elim\<close> is the loop over the unassigned variables with the running count, and
  \<open>lcv_scored\<close> the loop over the values.  Python's \<open>list.sort\<close> is stable, as
  \<open>sort_key\<close> is.
\<close>

fun lcv_scan :: "(string \<rightharpoonup> course) \<Rightarrow> string \<Rightarrow> string \<Rightarrow> val \<Rightarrow> val list \<Rightarrow> error + bool" where
  "lcv_scan courses_by_id var other v [] = Inr False"
| "lcv_scan courses_by_id var other v (ov # rest) =
     (if fst ov \<noteq> fst v then lcv_scan courses_by_id var other v rest
      else if snd ov = snd v then Inr True
      else case courses_by_id var of
        None \<Rightarrow> Inl KeyError
      | Some co \<Rightarrow>
          (case courses_by_id other of
             None \<Rightarrow> Inl KeyError
           | Some co2 \<Rightarrow>
               if teacher co = teacher co2 \<or> set (groups co) \<inter> set (groups co2) \<noteq> {}
               then Inr True
               else lcv_scan courses_by_id var other v rest))"

fun lcv_elim :: "(string \<rightharpoonup> course) \<Rightarrow> domains_t \<Rightarrow> string \<Rightarrow> val \<Rightarrow> nat \<Rightarrow> string list \<Rightarrow> error + nat" where
  "lcv_elim courses_by_id doms var v elim [] = Inr elim"
| "lcv_elim courses_by_id doms var v elim (other # rest) =
     (if other = var then lcv_elim courses_by_id doms var v elim rest
      else case doms other of
        None \<Rightarrow> Inl KeyError
      | Some d \<Rightarrow>
          (case lcv_scan courses_by_id var other v d of
             Inl e \<Rightarrow> Inl e
           | Inr hit \<Rightarrow>
               lcv_elim courses_by_id doms var v (if hit then elim + 1 else elim) rest))"

fun lcv_scored :: "(string \<rightharpoonup> course) \<Rightarrow> domains_t \<Rightarrow> string \<Rightarrow> string list \<Rightarrow> val list \<Rightarrow> error + (nat \<times> val) list" where
  "lcv_scored courses_by_id doms var unassigned [] = Inr []"
| "lcv_scored courses_by_id doms var unassigned (v # vals) =
     (case lcv_elim courses_by_id doms var v 0 unassigned of
        Inl e \<Rightarrow> Inl e
      | Inr elim \<Rightarrow>
          (case lcv_scored courses_by_id doms var unassigned vals of
             Inl e \<Rightarrow> Inl e
           | Inr scored \<Rightarrow> Inr ((elim, v) # scored)))"

definition lcv_order :: "string \<Rightarrow> domains_t \<Rightarrow> string list \<Rightarrow> (string \<rightharpoonup> course) \<Rightarrow> error + val list" where
  "lcv_order var doms unassigned courses_by_id =
     (case doms var of
        None \<Rightarrow> Inl KeyError
      | Some vals \<Rightarrow>
          (case lcv_scored courses_by_id doms var unassigned vals of
             Inl e \<Rightarrow> Inl e
           | Inr scored \<Rightarrow> Inr (map snd (sort_key fst scored))))"

subsection \<open>backtrack\_search\<close>

text \<open>
  The variables shared by the closure \<open>recurse2\<close> are a record that is passed in and
  returned.  \<open>tick\<close> counts the calls of \<open>timeout()\<close> made so far; \<open>clock env k\<close> is
  what \<open>time.perf_counter() - start\<close> reads at the \<open>k\<close>-th reading after the start, in
  seconds.  The parts that never change are the environment.
\<close>

record search_state =
  assignment :: assignment_t
  domains :: domains_t
  backtracks :: nat
  tries :: nat
  tick :: nat

record search_env =
  course_ids :: "string list"
  courses_by_id :: "string \<rightharpoonup> course"
  forward_checking :: bool
  clock :: "nat \<Rightarrow> real"
  time_limit_s :: real

record search_result =
  found :: bool
  time_ms :: real
  n_backtracks :: nat
  assignments_tried :: nat
  solution :: assignment_t

definition timeout :: "search_env \<Rightarrow> nat \<Rightarrow> bool" where
  "timeout env k = (clock env k > time_limit_s env)"

text \<open>The list comprehension that builds \<open>newdom\<close> in the forward-checking step.\<close>

fun prune_dom :: "(string \<rightharpoonup> course) \<Rightarrow> assignment_t \<Rightarrow> string \<Rightarrow> val list \<Rightarrow> error + val list" where
  "prune_dom cbi asg other [] = Inr []"
| "prune_dom cbi asg other (ov # rest) =
     (case violates asg cbi other ov of
        Inl e \<Rightarrow> Inl e
      | Inr viol \<Rightarrow>
          (case prune_dom cbi asg other rest of
             Inl e \<Rightarrow> Inl e
           | Inr newdom \<Rightarrow> Inr (if viol then newdom else ov # newdom)))"

text \<open>
  The forward-checking loop over \<open>unassigned\<close>: it returns \<open>failure\<close>, the dictionary
  \<open>saved\<close> and the pruned domains.  It stops at the first domain that becomes empty.
\<close>

fun forward_check :: "(string \<rightharpoonup> course) \<Rightarrow> assignment_t \<Rightarrow> string \<Rightarrow> string list \<Rightarrow> domains_t \<Rightarrow> domains_t
    \<Rightarrow> error + (bool \<times> domains_t \<times> domains_t)" where
  "forward_check cbi asg var [] saved doms = Inr (False, saved, doms)"
| "forward_check cbi asg var (other # rest) saved doms =
     (if other = var then forward_check cbi asg var rest saved doms
      else case doms other of
        None \<Rightarrow> Inl KeyError
      | Some d \<Rightarrow>
          (case prune_dom cbi asg other d of
             Inl e \<Rightarrow> Inl e
           | Inr newdom \<Rightarrow>
               if length newdom = 0 then Inr (True, saved(other \<mapsto> d), doms(other \<mapsto> newdom))
               else forward_check cbi asg var rest (saved(other \<mapsto> d)) (doms(other \<mapsto> newdom))))"

text \<open>
  \<open>recurse2\<close> and the \<open>for val in ordered_vals\<close> loop inside it.  The first argument
  bounds the depth of the recursion: \<open>recurse2\<close> uses one unit for each nested call, and a
  call at depth zero is the value \<open>Inl OutOfFuel\<close>.  \<open>backtrack_search\<close> starts with one
  more unit than there are courses, which is shown below to be enough
  (\<open>backtrack_search_returns\<close>).  The recursion limit of the Python interpreter is not
  part of the model, and times are real numbers, not floats.
\<close>

fun recurse2 :: "nat \<Rightarrow> search_env \<Rightarrow> search_state \<Rightarrow> error + (bool \<times> search_state)"
  and try_vals :: "nat \<Rightarrow> search_env \<Rightarrow> string \<Rightarrow> string list \<Rightarrow> val list \<Rightarrow> search_state
    \<Rightarrow> error + (bool \<times> search_state)" where
  "recurse2 0 env s = Inl OutOfFuel"
| "recurse2 (Suc n) env s =
     (if timeout env (tick s) then Inr (False, s\<lparr>tick := Suc (tick s)\<rparr>)
      else if length (assignment s) = length (course_ids env) then Inr (True, s\<lparr>tick := Suc (tick s)\<rparr>)
      else case select_mrv (filter (\<lambda>v. v \<notin> fst ` set (assignment s)) (course_ids env)) (domains s) of
        Inl e \<Rightarrow> Inl e
      | Inr None \<Rightarrow> Inr (False, s\<lparr>tick := Suc (tick s)\<rparr>)
      | Inr (Some var) \<Rightarrow>
          (case lcv_order var (domains s) (filter (\<lambda>v. v \<notin> fst ` set (assignment s)) (course_ids env))
                  (courses_by_id env) of
             Inl e \<Rightarrow> Inl e
           | Inr ordered_vals \<Rightarrow>
               if ordered_vals = []
               then Inr (False, s\<lparr>tick := Suc (tick s), backtracks := backtracks s + 1\<rparr>)
               else try_vals n env var (filter (\<lambda>v. v \<notin> fst ` set (assignment s)) (course_ids env))
                      ordered_vals (s\<lparr>tick := Suc (tick s)\<rparr>)))"
| "try_vals n env var unassigned [] s = Inr (False, s\<lparr>backtracks := backtracks s + 1\<rparr>)"
| "try_vals n env var unassigned (v # vals) s =
     (case violates (assignment s) (courses_by_id env) var v of
        Inl e \<Rightarrow> Inl e
      | Inr True \<Rightarrow> try_vals n env var unassigned vals (s\<lparr>tries := tries s + 1\<rparr>)
      | Inr False \<Rightarrow>
          (case (if forward_checking env
                 then forward_check (courses_by_id env) (AList.update var v (assignment s)) var unassigned
                        Map.empty (domains s)
                 else Inr (False, Map.empty, domains s)) of
             Inl e \<Rightarrow> Inl e
           | Inr (failure, saved, doms) \<Rightarrow>
               (case (if failure
                      then Inr (False, s\<lparr>tries := tries s + 1, assignment := AList.update var v (assignment s),
                                         domains := doms\<rparr>)
                      else recurse2 n env (s\<lparr>tries := tries s + 1,
                                              assignment := AList.update var v (assignment s),
                                              domains := doms\<rparr>)) of
                  Inl e \<Rightarrow> Inl e
                | Inr (True, s') \<Rightarrow> Inr (True, s')
                | Inr (False, s') \<Rightarrow>
                    try_vals n env var unassigned vals
                      (s'\<lparr>domains := domains s' ++ saved,
                          assignment := AList.delete var (assignment s')\<rparr>))))"

definition by_id :: "course list \<Rightarrow> (string \<rightharpoonup> course)" where
  "by_id courses = foldl (\<lambda>m c. m(cid c \<mapsto> c)) Map.empty courses"

definition search_env_of :: "(nat \<Rightarrow> real) \<Rightarrow> course list \<Rightarrow> bool \<Rightarrow> int \<Rightarrow> search_env" where
  "search_env_of clk courses fc time_limit_ms =
     \<lparr>course_ids = map cid courses, courses_by_id = by_id courses, forward_checking = fc,
      clock = clk, time_limit_s = real_of_int time_limit_ms / 1000\<rparr>"

definition initial_state :: "domains_t \<Rightarrow> search_state" where
  "initial_state domains_init =
     \<lparr>assignment = [], domains = domains_init, backtracks = 0, tries = 0, tick = 0\<rparr>"

definition backtrack_search :: "(nat \<Rightarrow> real) \<Rightarrow> course list \<Rightarrow> domains_t \<Rightarrow> bool \<Rightarrow> int \<Rightarrow> error + search_result" where
  "backtrack_search clk courses domains_init fc time_limit_ms =
     (case recurse2 (Suc (length courses)) (search_env_of clk courses fc time_limit_ms)
             (initial_state domains_init) of
        Inl e \<Rightarrow> Inl e
      | Inr (ok, s) \<Rightarrow>
          Inr \<lparr>found = ok, time_ms = clk (tick s) * 1000, n_backtracks = backtracks s,
               assignments_tried = tries s, solution = assignment s\<rparr>)"

section \<open>Notions used in the statements and proofs\<close>

text \<open>
  The definitions of this section are not part of the program: they name the conditions
  that the statements below are about, and the pieces of one loop iteration of
  \<open>recurse2\<close>.
\<close>

text \<open>
  \<open>conflict course_by_id c v e\<close>: the entry \<open>e\<close> of an assignment has the timeslot
  of the candidate \<open>v\<close>, and its course has the teacher of \<open>c\<close>, or a group of
  \<open>c\<close>, or its room is the candidate's.
\<close>

definition conflict :: "(string \<rightharpoonup> course) \<Rightarrow> course \<Rightarrow> val \<Rightarrow> string \<times> val \<Rightarrow> bool" where
  "conflict cbi c v e =
     (fst (snd e) = fst v \<and>
      (\<exists>other. cbi (fst e) = Some other \<and>
         (teacher other = teacher c \<or> set (groups other) \<inter> set (groups c) \<noteq> {} \<or> snd (snd e) = snd v)))"

text \<open>The size of the current domain of a variable.\<close>

definition dsize :: "domains_t \<Rightarrow> string \<Rightarrow> nat" where
  "dsize doms v = (case doms v of None \<Rightarrow> 0 | Some d \<Rightarrow> length d)"

text \<open>
  The elimination score that \<open>lcv_order\<close> computes.  \<open>lcv_hit\<close>: the domain of the
  other variable has some value with the timeslot of \<open>v\<close> that conflicts with it (the
  same room, or the two courses share the teacher or a group); the scan of that domain
  stops at the first such value.  The score of \<open>v\<close> counts the entries of the unassigned
  list other than \<open>var\<close> for which that holds.
\<close>

definition lcv_hit :: "(string \<rightharpoonup> course) \<Rightarrow> domains_t \<Rightarrow> string \<Rightarrow> val \<Rightarrow> string \<Rightarrow> bool" where
  "lcv_hit cbi doms var v other =
     (\<exists>ov \<in> set (the (doms other)). fst ov = fst v \<and>
        (snd ov = snd v \<or> teacher (the (cbi var)) = teacher (the (cbi other)) \<or>
         set (groups (the (cbi var))) \<inter> set (groups (the (cbi other))) \<noteq> {}))"

definition elimination_score :: "(string \<rightharpoonup> course) \<Rightarrow> domains_t \<Rightarrow> string \<Rightarrow> string list \<Rightarrow> val \<Rightarrow> nat" where
  "elimination_score cbi doms var unassigned v =
     length (filter (\<lambda>other. other \<noteq> var \<and> lcv_hit cbi doms var v other) unassigned)"

text \<open>
  The score in the words of claim C7: of the domain of the other variable only the first
  value with the timeslot of \<open>v\<close> is tested, and the variable counts when that value
  conflicts.
\<close>

definition first_value_hit :: "(string \<rightharpoonup> course) \<Rightarrow> domains_t \<Rightarrow> string \<Rightarrow> val \<Rightarrow> string \<Rightarrow> bool" where
  "first_value_hit cbi doms var v other =
     (case filter (\<lambda>ov. fst ov = fst v) (the (doms other)) of
        [] \<Rightarrow> False
      | ov # rest \<Rightarrow>
          snd ov = snd v \<or> teacher (the (cbi var)) = teacher (the (cbi other)) \<or>
          set (groups (the (cbi var))) \<inter> set (groups (the (cbi other))) \<noteq> {})"

definition first_value_score :: "(string \<rightharpoonup> course) \<Rightarrow> domains_t \<Rightarrow> string \<Rightarrow> string list \<Rightarrow> val \<Rightarrow> nat" where
  "first_value_score cbi doms var unassigned v =
     length (filter (\<lambda>other. other \<noteq> var \<and> first_value_hit cbi doms var v other) unassigned)"

text \<open>
  The pieces of \<open>recurse2\<close>: the list \<open>unassigned\<close> that a call computes, the
  forward-checking step of one loop iteration (in plain mode nothing is saved and the
  domains stay), the state after the tentative assignment, and the state after the
  restore and the pop.
\<close>

definition unassigned_of :: "search_env \<Rightarrow> search_state \<Rightarrow> string list" where
  "unassigned_of env s = filter (\<lambda>v. v \<notin> fst ` set (assignment s)) (course_ids env)"

definition fc_step :: "search_env \<Rightarrow> string \<Rightarrow> val \<Rightarrow> string list \<Rightarrow> search_state
    \<Rightarrow> error + (bool \<times> domains_t \<times> domains_t)" where
  "fc_step env var v un s =
     (if forward_checking env
      then forward_check (courses_by_id env) (AList.update var v (assignment s)) var un Map.empty (domains s)
      else Inr (False, Map.empty, domains s))"

definition assigned :: "string \<Rightarrow> val \<Rightarrow> domains_t \<Rightarrow> search_state \<Rightarrow> search_state" where
  "assigned var v doms s =
     s\<lparr>tries := tries s + 1, assignment := AList.update var v (assignment s), domains := doms\<rparr>"

definition undo :: "string \<Rightarrow> domains_t \<Rightarrow> search_state \<Rightarrow> search_state" where
  "undo var saved s = s\<lparr>domains := domains s ++ saved, assignment := AList.delete var (assignment s)\<rparr>"

text \<open>
  \<open>doms_le D' D\<close>: the two mappings have the same keys, and every domain of \<open>D'\<close>
  is a subsequence of the domain in \<open>D\<close>.  \<open>inside D0 M\<close>: every domain of \<open>M\<close> has
  only values of the domain that \<open>D0\<close> has for the same variable.
\<close>

definition doms_le :: "domains_t \<Rightarrow> domains_t \<Rightarrow> bool" where
  "doms_le D' D = (\<forall>k. rel_option subseq (D' k) (D k))"

definition inside :: "domains_t \<Rightarrow> domains_t \<Rightarrow> bool" where
  "inside D0 M = (\<forall>k d. M k = Some d \<longrightarrow> (\<exists>d0. D0 k = Some d0 \<and> set d \<subseteq> set d0))"

text \<open>
  \<open>consistent\<close>: no two entries of the assignment for different variables and the same
  timeslot have the same teacher, a common group or the same room.  \<open>good_asg\<close>: a
  consistent assignment of distinct keys that are course ids.  \<open>asg_from\<close>: every
  assigned value is in the domain that \<open>D0\<close> has for its variable.  \<open>wf_state\<close>:
  every course id has a domain and a course, and only course ids are assigned.
\<close>

definition consistent :: "(string \<rightharpoonup> course) \<Rightarrow> assignment_t \<Rightarrow> bool" where
  "consistent cbi asg =
     (\<forall>e1 \<in> set asg. \<forall>e2 \<in> set asg. fst e1 \<noteq> fst e2 \<and> fst (snd e1) = fst (snd e2) \<longrightarrow>
        (\<exists>c1 c2. cbi (fst e1) = Some c1 \<and> cbi (fst e2) = Some c2 \<and> teacher c1 \<noteq> teacher c2 \<and>
           set (groups c1) \<inter> set (groups c2) = {} \<and> snd (snd e1) \<noteq> snd (snd e2)))"

definition good_asg :: "search_env \<Rightarrow> assignment_t \<Rightarrow> bool" where
  "good_asg env asg =
     (distinct (map fst asg) \<and> fst ` set asg \<subseteq> set (course_ids env) \<and>
      consistent (courses_by_id env) asg)"

definition asg_from :: "domains_t \<Rightarrow> assignment_t \<Rightarrow> bool" where
  "asg_from D0 asg = (\<forall>e \<in> set asg. \<exists>d0. D0 (fst e) = Some d0 \<and> snd e \<in> set d0)"

definition wf_state :: "search_env \<Rightarrow> search_state \<Rightarrow> bool" where
  "wf_state env s =
     (set (course_ids env) \<subseteq> dom (domains s) \<and> set (course_ids env) \<subseteq> dom (courses_by_id env) \<and>
      fst ` set (assignment s) \<subseteq> set (course_ids env))"

text \<open>
  \<open>complete_good\<close>: a good assignment with as many entries as there are courses.
  \<open>kept\<close>: domains and assigned values are within the initial domains \<open>D0\<close>.
\<close>

definition complete_good :: "search_env \<Rightarrow> search_state \<Rightarrow> bool" where
  "complete_good env s' =
     (good_asg env (assignment s') \<and> length (assignment s') = length (course_ids env))"

definition kept :: "domains_t \<Rightarrow> search_state \<Rightarrow> bool" where
  "kept D0 s = (inside D0 (domains s) \<and> asg_from D0 (assignment s))"

text \<open>
  Concrete instances.  \<open>zero_clock\<close> is a clock on which no time passes;
  on \<open>late_clock\<close> the first deadline check reads 0 seconds and every later one 1 second.
\<close>

definition zero_clock :: "nat \<Rightarrow> real" where
  "zero_clock k = 0"

definition late_clock :: "nat \<Rightarrow> real" where
  "late_clock k = (if k = 0 then 0 else 1)"

text \<open>
  The two scenarios of the specification: two, and three, courses without a common teacher
  or group, two timeslots and one room that is large enough.
\<close>

definition pair_courses :: "course list" where
  "pair_courses =
     [\<lparr>cid = ''C1'', teacher = ''T1'', groups = [''G1''], csize = 10\<rparr>,
      \<lparr>cid = ''C2'', teacher = ''T2'', groups = [''G2''], csize = 10\<rparr>]"

definition triple_courses :: "course list" where
  "triple_courses =
     [\<lparr>cid = ''C1'', teacher = ''T1'', groups = [''G1''], csize = 10\<rparr>,
      \<lparr>cid = ''C2'', teacher = ''T2'', groups = [''G2''], csize = 10\<rparr>,
      \<lparr>cid = ''C3'', teacher = ''T3'', groups = [''G3''], csize = 10\<rparr>]"

definition two_slots :: "string list" where
  "two_slots = [''Mon_9'', ''Mon_11'']"

definition one_room :: "room list" where
  "one_room = [\<lparr>rid = ''R1'', capacity = 10\<rparr>]"

text \<open>
  Six courses without a common teacher or group, one room, and initial domains that differ
  from course to course.
\<close>

definition six_courses :: "course list" where
  "six_courses =
     [\<lparr>cid = ''A'', teacher = ''TA'', groups = [], csize = 1\<rparr>,
      \<lparr>cid = ''C'', teacher = ''TC'', groups = [], csize = 1\<rparr>,
      \<lparr>cid = ''B'', teacher = ''TB'', groups = [], csize = 1\<rparr>,
      \<lparr>cid = ''D'', teacher = ''TD'', groups = [], csize = 1\<rparr>,
      \<lparr>cid = ''E'', teacher = ''TE'', groups = [], csize = 1\<rparr>,
      \<lparr>cid = ''F'', teacher = ''TF'', groups = [], csize = 1\<rparr>]"

definition six_domains :: domains_t where
  "six_domains =
     [''A'' \<mapsto> [(''1'', ''R'')],
      ''C'' \<mapsto> [(''1'', ''R''), (''2'', ''R''), (''3'', ''R'')],
      ''B'' \<mapsto> [(''2'', ''R''), (''4'', ''R'')],
      ''D'' \<mapsto> [(''2'', ''R''), (''4'', ''R'')],
      ''E'' \<mapsto> [(''3'', ''R''), (''5'', ''R''), (''6'', ''R'')],
      ''F'' \<mapsto> [(''3'', ''R''), (''7'', ''R''), (''8'', ''R'')]]"

text \<open>Three courses of which two have the same id.\<close>

definition twin_courses :: "course list" where
  "twin_courses =
     [\<lparr>cid = ''B'', teacher = ''TB'', groups = [], csize = 1\<rparr>,
      \<lparr>cid = ''X'', teacher = ''TX'', groups = [], csize = 1\<rparr>,
      \<lparr>cid = ''X'', teacher = ''TY'', groups = [], csize = 1\<rparr>]"

definition twin_domains :: domains_t where
  "twin_domains =
     [''B'' \<mapsto> [(''Mon_9'', ''R1'')], ''X'' \<mapsto> [(''Mon_9'', ''R1''), (''Mon_11'', ''R1'')]]"

text \<open>A clock that reads one millisecond more at every reading, starting at one.\<close>

definition ms_clock :: "nat \<Rightarrow> real" where
  "ms_clock k = (1 + real k) / 1000"

text \<open>Two rooms of the same size, and one timeslot.\<close>

definition two_rooms :: "room list" where
  "two_rooms = [\<lparr>rid = ''R1'', capacity = 10\<rparr>, \<lparr>rid = ''R2'', capacity = 10\<rparr>]"

definition one_slot :: "string list" where
  "one_slot = [''Mon_9'']"

text \<open>Two courses that have the same single value in their domains.\<close>

definition clash_domains :: domains_t where
  "clash_domains = [''C1'' \<mapsto> [(''Mon_9'', ''R1'')], ''C2'' \<mapsto> [(''Mon_9'', ''R1'')]]"

section \<open>Auxiliary lemmas\<close>

lemma violates_loop_known:
  "fst ` set asg \<subseteq> dom cbi \<Longrightarrow> violates_loop cbi c v asg = Inr (\<exists>e \<in> set asg. conflict cbi c v e)"
proof (induction asg)
  case Nil
  then show ?case by simp
next
  case (Cons e asg)
  obtain k ots oroom where e: "e = (k, ots, oroom)" by (cases e) auto
  from Cons.prems obtain other where o: "cbi k = Some other" by (auto simp: e)
  from Cons have IH: "violates_loop cbi c v asg = Inr (\<exists>e \<in> set asg. conflict cbi c v e)" by simp
  show ?case by (simp add: e o IH conflict_def)
qed

lemma violates_loop_first:
  "fst ` set pre \<subseteq> dom cbi \<Longrightarrow> conflict cbi c v e \<Longrightarrow> violates_loop cbi c v (pre @ e # rest) = Inr True"
proof (induction pre)
  case Nil
  obtain k ots oroom where e: "e = (k, ots, oroom)" by (cases e) auto
  from Nil show ?case by (auto simp: e conflict_def)
next
  case (Cons p pre)
  obtain k ots oroom where p: "p = (k, ots, oroom)" by (cases p) auto
  from Cons.prems obtain other where o: "cbi k = Some other" by (auto simp: p)
  from Cons have IH: "violates_loop cbi c v (pre @ e # rest) = Inr True" by simp
  show ?case by (simp add: p o IH)
qed

lemma violates_loop_False:
  "violates_loop cbi c v asg = Inr False \<Longrightarrow> e \<in> set asg \<Longrightarrow> fst (snd e) = fst v \<Longrightarrow>
     \<exists>other. cbi (fst e) = Some other \<and> teacher other \<noteq> teacher c \<and>
       set (groups other) \<inter> set (groups c) = {} \<and> snd (snd e) \<noteq> snd v"
proof (induction asg)
  case Nil
  then show ?case by simp
next
  case (Cons p asg)
  obtain k ots oroom where p: "p = (k, ots, oroom)" by (cases p) auto
  from Cons.prems(1) have rest: "violates_loop cbi c v asg = Inr False"
    by (auto simp: p split: if_splits option.splits)
  show ?case
  proof (cases "e = p")
    case True
    with Cons.prems show ?thesis by (auto simp: p split: if_splits option.splits)
  next
    case False
    with Cons.prems have "e \<in> set asg" by simp
    with Cons.IH rest Cons.prems(3) show ?thesis by blast
  qed
qed

lemma select_mrv_loop_none:
  "set xs \<subseteq> dom doms \<Longrightarrow> \<forall>x \<in> set xs. bs \<le> dsize doms x \<Longrightarrow> select_mrv_loop doms best bs xs = Inr best"
  by (induction xs arbitrary: best bs) (auto simp: dsize_def)

lemma select_mrv_loop_some:
  "set xs \<subseteq> dom doms \<Longrightarrow> \<exists>x \<in> set xs. dsize doms x < bs \<Longrightarrow>
   \<exists>pre var post. select_mrv_loop doms best bs xs = Inr (Some var) \<and> xs = pre @ var # post \<and>
      dsize doms var < bs \<and> (\<forall>u \<in> set pre. dsize doms var < dsize doms u) \<and> (\<forall>u \<in> set post. dsize doms var \<le> dsize doms u)"
proof (induction xs arbitrary: best bs)
  case Nil
  then show ?case by simp
next
  case (Cons x xs)
  from Cons.prems(1) obtain d where d: "doms x = Some d" by auto
  have sub: "set xs \<subseteq> dom doms" using Cons.prems(1) by simp
  have dx: "dsize doms x = length d" by (simp add: dsize_def d)
  show ?case
  proof (cases "length d < bs")
    case True
    show ?thesis
    proof (cases "\<exists>y \<in> set xs. dsize doms y < length d")
      case True
      from Cons.IH[OF sub True, of "Some x"] obtain pre var post where
        r: "select_mrv_loop doms (Some x) (length d) xs = Inr (Some var)" "xs = pre @ var # post"
          "dsize doms var < length d" "\<forall>u \<in> set pre. dsize doms var < dsize doms u"
          "\<forall>u \<in> set post. dsize doms var \<le> dsize doms u" by blast
      have "select_mrv_loop doms best bs (x # xs) = Inr (Some var)" using \<open>length d < bs\<close> r(1) by (simp add: d)
      moreover have "x # xs = (x # pre) @ var # post" using r(2) by simp
      moreover have "dsize doms var < bs" using r(3) \<open>length d < bs\<close> by simp
      moreover have "\<forall>u \<in> set (x # pre). dsize doms var < dsize doms u" using r(3,4) dx by simp
      ultimately show ?thesis using r(5) by blast
    next
      case False
      then have "\<forall>y \<in> set xs. length d \<le> dsize doms y" by auto
      from select_mrv_loop_none[OF sub this, of "Some x"]
      have "select_mrv_loop doms best bs (x # xs) = Inr (Some x)" using \<open>length d < bs\<close> by (simp add: d)
      moreover have "x # xs = [] @ x # xs" by simp
      moreover have "\<forall>u \<in> set xs. dsize doms x \<le> dsize doms u" using False dx by auto
      ultimately show ?thesis using \<open>length d < bs\<close> dx by (metis empty_iff list.set(1))
    qed
  next
    case False
    with Cons.prems(2) dx have ex: "\<exists>y \<in> set xs. dsize doms y < bs" by auto
    from Cons.IH[OF sub ex, of best] obtain pre var post where
      r: "select_mrv_loop doms best bs xs = Inr (Some var)" "xs = pre @ var # post"
        "dsize doms var < bs" "\<forall>u \<in> set pre. dsize doms var < dsize doms u"
        "\<forall>u \<in> set post. dsize doms var \<le> dsize doms u" by blast
    have "select_mrv_loop doms best bs (x # xs) = Inr (Some var)" using False r(1) by (simp add: d)
    moreover have "x # xs = (x # pre) @ var # post" using r(2) by simp
    moreover have "\<forall>u \<in> set (x # pre). dsize doms var < dsize doms u" using r(3,4) dx False by simp
    ultimately show ?thesis using r(3,5) by blast
  qed
qed

lemma select_mrv_loop_mem:
  "select_mrv_loop doms best bs xs = Inr (Some var) \<Longrightarrow> best = Some var \<or> var \<in> set xs"
  by (induction xs arbitrary: best bs) (auto split: option.splits if_splits)

lemma select_mrv_mem: "select_mrv xs doms = Inr (Some var) \<Longrightarrow> var \<in> set xs"
  using select_mrv_loop_mem[of doms None _ xs var] by (auto simp: select_mrv_def)

lemma select_mrv_loop_ok:
  "set xs \<subseteq> dom doms \<Longrightarrow> \<exists>r. select_mrv_loop doms best bs xs = Inr r"
  by (induction xs arbitrary: best bs) auto

lemma select_mrv_ok: "set xs \<subseteq> dom doms \<Longrightarrow> \<exists>r. select_mrv xs doms = Inr r"
  by (simp add: select_mrv_def select_mrv_loop_ok)

text \<open>
  As long as some domain has fewer than \<open>10 ^ 9\<close> values, \<open>select_mrv\<close> returns the
  earliest variable of smallest domain; when no domain is that small it returns none.
\<close>

lemma select_mrv_below_sentinel:
  assumes "set unassigned \<subseteq> dom doms" and "\<exists>x \<in> set unassigned. dsize doms x < 10 ^ 9"
  shows "\<exists>pre var post. select_mrv unassigned doms = Inr (Some var) \<and>
           unassigned = pre @ var # post \<and>
           (\<forall>u \<in> set pre. dsize doms var < dsize doms u) \<and>
           (\<forall>u \<in> set post. dsize doms var \<le> dsize doms u)"
  using select_mrv_loop_some[OF assms, of None] unfolding select_mrv_def by blast

lemma select_mrv_at_sentinel:
  assumes "set unassigned \<subseteq> dom doms" and "\<forall>x \<in> set unassigned. 10 ^ 9 \<le> dsize doms x"
  shows "select_mrv unassigned doms = Inr None"
  using select_mrv_loop_none[OF assms] by (simp add: select_mrv_def)

lemma select_mrv_none_iff_empty:
  assumes "set unassigned \<subseteq> dom doms" and "\<forall>x \<in> set unassigned. dsize doms x < 10 ^ 9"
  shows "select_mrv unassigned doms = Inr None \<longleftrightarrow> unassigned = []"
proof (cases unassigned)
  case Nil
  then show ?thesis by (simp add: select_mrv_def)
next
  case (Cons x xs)
  with assms(2) have "\<exists>x \<in> set unassigned. dsize doms x < 10 ^ 9" by auto
  from select_mrv_below_sentinel[OF assms(1) this] Cons show ?thesis by auto
qed

lemma lcv_scan_known:
  "cbi var = Some co \<Longrightarrow> cbi other = Some co2 \<Longrightarrow>
   lcv_scan cbi var other v d =
     Inr (\<exists>ov \<in> set d. fst ov = fst v \<and>
        (snd ov = snd v \<or> teacher co = teacher co2 \<or> set (groups co) \<inter> set (groups co2) \<noteq> {}))"
  by (induction d) auto

lemma lcv_elim_known:
  "var \<in> dom cbi \<Longrightarrow> set un \<subseteq> dom cbi \<Longrightarrow> set un \<subseteq> dom doms \<Longrightarrow>
   lcv_elim cbi doms var v elim un = Inr (elim + elimination_score cbi doms var un v)"
proof (induction un arbitrary: elim)
  case Nil
  then show ?case by (simp add: elimination_score_def)
next
  case (Cons other un)
  from Cons.prems obtain co co2 d where k: "cbi var = Some co" "cbi other = Some co2" "doms other = Some d"
    by auto
  have IH: "\<And>e. lcv_elim cbi doms var v e un = Inr (e + elimination_score cbi doms var un v)"
    using Cons by simp
  have scan: "lcv_scan cbi var other v d = Inr (lcv_hit cbi doms var v other)"
    by (simp add: lcv_scan_known[OF k(1,2)] lcv_hit_def k)
  show ?case by (simp add: k scan IH elimination_score_def)
qed

lemma lcv_scored_known:
  "var \<in> dom cbi \<Longrightarrow> set un \<subseteq> dom cbi \<Longrightarrow> set un \<subseteq> dom doms \<Longrightarrow>
   lcv_scored cbi doms var un vals = Inr (map (\<lambda>v. (elimination_score cbi doms var un v, v)) vals)"
  by (induction vals) (simp_all add: lcv_elim_known)

lemma insort_key_tagged:
  "\<forall>p \<in> set ps. fst p = f (snd p) \<Longrightarrow>
   map snd (insort_key fst (f x, x) ps) = insort_key f x (map snd ps)"
  by (induction ps) auto

lemma sort_key_tagged:
  "map snd (sort_key fst (map (\<lambda>v. (f v, v)) xs)) = sort_key f xs"
proof (induction xs)
  case Nil
  then show ?case by simp
next
  case (Cons x xs)
  have "\<forall>p \<in> set (sort_key fst (map (\<lambda>v. (f v, v)) xs)). fst p = f (snd p)" by auto
  from insort_key_tagged[OF this, of x] Cons show ?case by (simp add: sort_key_def)
qed

lemma lcv_order_known:
  assumes "doms var = Some vals" "var \<in> dom cbi" "set un \<subseteq> dom cbi" "set un \<subseteq> dom doms"
  shows "lcv_order var doms un cbi = Inr (sort_key (elimination_score cbi doms var un) vals)"
  by (simp add: lcv_order_def assms lcv_scored_known sort_key_tagged)

lemma lcv_scored_snd:
  "lcv_scored cbi doms var un vals = Inr scored \<Longrightarrow> map snd scored = vals"
  by (induction vals arbitrary: scored) (auto split: sum.splits)

lemma lcv_order_mset:
  assumes "lcv_order var doms un cbi = Inr r"
  shows "\<exists>vals. doms var = Some vals \<and> mset r = mset vals"
proof -
  from assms obtain vals scored where a: "doms var = Some vals" "lcv_scored cbi doms var un vals = Inr scored"
    "r = map snd (sort_key fst scored)"
    by (auto simp: lcv_order_def split: option.splits sum.splits)
  have "mset r = mset (map snd scored)" unfolding a(3) by (metis mset_map mset_sort)
  with lcv_scored_snd[OF a(2)] a(1) show ?thesis by simp
qed

lemma recurse2_Suc:
  "recurse2 (Suc n) env s =
     (if timeout env (tick s) then Inr (False, s\<lparr>tick := Suc (tick s)\<rparr>)
      else if length (assignment s) = length (course_ids env) then Inr (True, s\<lparr>tick := Suc (tick s)\<rparr>)
      else case select_mrv (unassigned_of env s) (domains s) of
        Inl e \<Rightarrow> Inl e
      | Inr None \<Rightarrow> Inr (False, s\<lparr>tick := Suc (tick s)\<rparr>)
      | Inr (Some var) \<Rightarrow>
          (case lcv_order var (domains s) (unassigned_of env s) (courses_by_id env) of
             Inl e \<Rightarrow> Inl e
           | Inr ordered_vals \<Rightarrow>
               if ordered_vals = []
               then Inr (False, s\<lparr>tick := Suc (tick s), backtracks := backtracks s + 1\<rparr>)
               else try_vals n env var (unassigned_of env s) ordered_vals (s\<lparr>tick := Suc (tick s)\<rparr>)))"
  unfolding unassigned_of_def by (rule recurse2.simps)

lemma try_vals_Cons:
  "try_vals n env var un (v # vals) s =
     (case violates (assignment s) (courses_by_id env) var v of
        Inl e \<Rightarrow> Inl e
      | Inr True \<Rightarrow> try_vals n env var un vals (s\<lparr>tries := tries s + 1\<rparr>)
      | Inr False \<Rightarrow>
          (case fc_step env var v un s of
             Inl e \<Rightarrow> Inl e
           | Inr (failure, saved, doms) \<Rightarrow>
               (case (if failure then Inr (False, assigned var v doms s)
                      else recurse2 n env (assigned var v doms s)) of
                  Inl e \<Rightarrow> Inl e
                | Inr (True, s') \<Rightarrow> Inr (True, s')
                | Inr (False, s') \<Rightarrow> try_vals n env var un vals (undo var saved s'))))"
  unfolding fc_step_def assigned_def undo_def by (rule try_vals.simps)

declare recurse2.simps(2) [simp del] try_vals.simps(2) [simp del]

lemma recurse2_Suc_cases [consumes 1, case_names timeout full novar empty loop]:
  assumes "recurse2 (Suc n) env s = Inr (b, s')"
  obtains
    "timeout env (tick s)" "\<not> b" "s' = s\<lparr>tick := Suc (tick s)\<rparr>"
  | "\<not> timeout env (tick s)" "length (assignment s) = length (course_ids env)" "b"
      "s' = s\<lparr>tick := Suc (tick s)\<rparr>"
  | "\<not> timeout env (tick s)" "length (assignment s) \<noteq> length (course_ids env)"
      "select_mrv (unassigned_of env s) (domains s) = Inr None" "\<not> b" "s' = s\<lparr>tick := Suc (tick s)\<rparr>"
  | var where "\<not> timeout env (tick s)" "length (assignment s) \<noteq> length (course_ids env)"
      "select_mrv (unassigned_of env s) (domains s) = Inr (Some var)"
      "lcv_order var (domains s) (unassigned_of env s) (courses_by_id env) = Inr []"
      "\<not> b" "s' = s\<lparr>tick := Suc (tick s), backtracks := backtracks s + 1\<rparr>"
  | var vals where "\<not> timeout env (tick s)" "length (assignment s) \<noteq> length (course_ids env)"
      "select_mrv (unassigned_of env s) (domains s) = Inr (Some var)"
      "lcv_order var (domains s) (unassigned_of env s) (courses_by_id env) = Inr vals" "vals \<noteq> []"
      "try_vals n env var (unassigned_of env s) vals (s\<lparr>tick := Suc (tick s)\<rparr>) = Inr (b, s')"
  using assms unfolding recurse2_Suc
  by (auto split: if_splits sum.splits option.splits)

lemma try_vals_Cons_cases [consumes 1, case_names skip wipe success failed]:
  assumes "try_vals n env var un (v # vals) s = Inr (b, s')"
  obtains
    "violates (assignment s) (courses_by_id env) var v = Inr True"
      "try_vals n env var un vals (s\<lparr>tries := tries s + 1\<rparr>) = Inr (b, s')"
  | saved doms where "violates (assignment s) (courses_by_id env) var v = Inr False"
      "fc_step env var v un s = Inr (True, saved, doms)"
      "try_vals n env var un vals (undo var saved (assigned var v doms s)) = Inr (b, s')"
  | saved doms where "violates (assignment s) (courses_by_id env) var v = Inr False"
      "fc_step env var v un s = Inr (False, saved, doms)"
      "recurse2 n env (assigned var v doms s) = Inr (True, s')" "b"
  | saved doms s3 where "violates (assignment s) (courses_by_id env) var v = Inr False"
      "fc_step env var v un s = Inr (False, saved, doms)"
      "recurse2 n env (assigned var v doms s) = Inr (False, s3)"
      "try_vals n env var un vals (undo var saved s3) = Inr (b, s')"
  using assms unfolding try_vals_Cons
  by (auto split: if_splits sum.splits bool.splits prod.splits)

lemma assignment_assigned [simp]: "assignment (assigned var v doms s) = AList.update var v (assignment s)"
  and domains_assigned [simp]: "domains (assigned var v doms s) = doms"
  and tick_assigned [simp]: "tick (assigned var v doms s) = tick s"
  by (simp_all add: assigned_def)

lemma assignment_undo [simp]: "assignment (undo var saved s) = AList.delete var (assignment s)"
  and domains_undo [simp]: "domains (undo var saved s) = domains s ++ saved"
  and tick_undo [simp]: "tick (undo var saved s) = tick s"
  by (simp_all add: undo_def)

lemma unassigned_of_cong: "assignment s = assignment t \<Longrightarrow> unassigned_of env s = unassigned_of env t"
  by (simp add: unassigned_of_def)

lemma select_mrv_unassigned:
  "select_mrv (unassigned_of env s) (domains s) = Inr (Some var) \<Longrightarrow>
     var \<in> set (course_ids env) \<and> var \<notin> fst ` set (assignment s)"
  by (drule select_mrv_mem) (simp add: unassigned_of_def)

text \<open>A failed call leaves the assignment as it found it.\<close>

lemma try_vals_assignment_aux:
  assumes rec: "\<And>s s'. recurse2 n env s = Inr (False, s') \<Longrightarrow> assignment s' = assignment s"
  shows "var \<notin> fst ` set (assignment s) \<Longrightarrow> try_vals n env var un vals s = Inr (False, s') \<Longrightarrow>
           assignment s' = assignment s"
proof (induction vals arbitrary: s)
  case Nil
  then show ?case by auto
next
  case (Cons v vals)
  from Cons.prems(2) show ?case
  proof (cases rule: try_vals_Cons_cases)
    case skip
    with Cons.IH[of "s\<lparr>tries := tries s + 1\<rparr>"] Cons.prems(1) show ?thesis by simp
  next
    case (wipe saved doms)
    with Cons.IH[of "undo var saved (assigned var v doms s)"] Cons.prems(1) show ?thesis
      by (simp add: delete_update_same)
  next
    case (success saved doms)
    then show ?thesis by simp
  next
    case (failed saved doms s3)
    from rec[OF failed(3)] have "assignment s3 = AList.update var v (assignment s)" by simp
    with Cons.IH[of "undo var saved s3"] failed(4) Cons.prems(1) show ?thesis
      by (simp add: delete_update_same)
  qed
qed

lemma recurse2_assignment_failed:
  "recurse2 n env s = Inr (False, s') \<Longrightarrow> assignment s' = assignment s"
proof (induction n arbitrary: s s')
  case 0
  then show ?case by simp
next
  case (Suc n)
  from Suc.prems show ?case
  proof (cases rule: recurse2_Suc_cases)
    case (loop var vals)
    from select_mrv_unassigned[OF loop(3)] have "var \<notin> fst ` set (assignment (s\<lparr>tick := Suc (tick s)\<rparr>))"
      by simp
    from try_vals_assignment_aux[OF Suc.IH this loop(6)] show ?thesis by simp
  qed auto
qed

lemma try_vals_assignment_failed:
  "var \<notin> fst ` set (assignment s) \<Longrightarrow> try_vals n env var un vals s = Inr (False, s') \<Longrightarrow>
     assignment s' = assignment s"
  using try_vals_assignment_aux[OF recurse2_assignment_failed] .

lemma foldl_upd_map_of:
  "foldl (\<lambda>m c. m(f c \<mapsto> g c)) m0 xs = m0 ++ map_of (rev (map (\<lambda>c. (f c, g c)) xs))"
  by (induction xs arbitrary: m0) (simp_all add: map_add_upd_left)

lemma by_id_map_of: "by_id courses = map_of (rev (map (\<lambda>c. (cid c, c)) courses))"
  by (simp add: by_id_def foldl_upd_map_of)

lemma dom_by_id: "dom (by_id courses) = set (map cid courses)"
  by (force simp: by_id_map_of dom_map_of_conv_image_fst)

lemma by_id_distinct:
  "distinct (map cid courses) \<Longrightarrow> c \<in> set courses \<Longrightarrow> by_id courses (cid c) = Some c"
  unfolding by_id_map_of
  by (rule map_of_is_SomeI) (auto simp: rev_map[symmetric] distinct_rev comp_def)

lemma build_domains_map_of:
  "build_domains courses timeslots rooms =
     map_of (rev (map (\<lambda>c. (cid c, course_domain c timeslots rooms)) courses))"
  by (simp add: build_domains_def foldl_upd_map_of)

lemma dom_build_domains: "dom (build_domains courses timeslots rooms) = set (map cid courses)"
  by (force simp: build_domains_map_of dom_map_of_conv_image_fst)

lemma build_domains_distinct:
  "distinct (map cid courses) \<Longrightarrow> c \<in> set courses \<Longrightarrow>
     build_domains courses timeslots rooms (cid c) = Some (course_domain c timeslots rooms)"
  unfolding build_domains_map_of
  by (rule map_of_is_SomeI) (auto simp: rev_map[symmetric] distinct_rev comp_def)

lemma course_domain_iff:
  "(ts, r) \<in> set (course_domain c timeslots rooms) \<longleftrightarrow>
     ts \<in> set timeslots \<and> (\<exists>rm \<in> set rooms. rid rm = r \<and> csize c \<le> capacity rm)"
  by (auto simp: course_domain_def)

lemma update_fresh: "k \<notin> fst ` set al \<Longrightarrow> AList.update k v al = al @ [(k, v)]"
  by (induction al) auto

lemma delete_update_fresh: "k \<notin> fst ` set al \<Longrightarrow> AList.delete k (AList.update k v al) = al"
  by (simp add: delete_update_same)

lemma prune_dom_filter:
  "prune_dom cbi a other d = Inr nd \<Longrightarrow> nd = filter (\<lambda>ov. violates a cbi other ov = Inr False) d"
proof (induction d arbitrary: nd)
  case Nil
  then show ?case by simp
next
  case (Cons ov d)
  from Cons.prems obtain viol nd0 where a: "violates a cbi other ov = Inr viol"
    "prune_dom cbi a other d = Inr nd0" "nd = (if viol then nd0 else ov # nd0)"
    by (auto split: sum.splits)
  from Cons.IH[OF a(2)] a(1,3) show ?case by auto
qed

lemma prune_dom_subseq: "prune_dom cbi a other d = Inr nd \<Longrightarrow> subseq nd d"
  by (drule prune_dom_filter) simp

lemma doms_le_refl: "doms_le D D"
  by (simp add: doms_le_def option.rel_refl)

lemma doms_le_trans: "doms_le D1 D2 \<Longrightarrow> doms_le D2 D3 \<Longrightarrow> doms_le D1 D3"
  unfolding doms_le_def
proof
  fix k assume a: "\<forall>k. rel_option subseq (D1 k) (D2 k)" "\<forall>k. rel_option subseq (D2 k) (D3 k)"
  then have "rel_option subseq (D1 k) (D2 k)" "rel_option subseq (D2 k) (D3 k)" by auto
  then show "rel_option subseq (D1 k) (D3 k)"
    by (cases "D1 k"; cases "D2 k"; cases "D3 k") (auto intro: subseq_order.order_trans)
qed

lemma doms_le_upd: "D k = Some d \<Longrightarrow> subseq nd d \<Longrightarrow> doms_le (D(k \<mapsto> nd)) D"
  by (simp add: doms_le_def option.rel_refl)

lemma forward_check_le:
  "forward_check cbi a var un saved D = Inr (f, saved', D') \<Longrightarrow> doms_le D' D"
proof (induction un arbitrary: saved D)
  case Nil
  then show ?case by (simp add: doms_le_refl)
next
  case (Cons other un)
  show ?case
  proof (cases "other = var")
    case True
    with Cons show ?thesis by simp
  next
    case False
    with Cons.prems obtain d nd where a: "D other = Some d" "prune_dom cbi a other d = Inr nd"
      by (auto split: option.splits sum.splits)
    have le: "doms_le (D(other \<mapsto> nd)) D"
      by (rule doms_le_upd[where d = d]) (simp_all add: a prune_dom_subseq[OF a(2)])
    show ?thesis
    proof (cases "length nd = 0")
      case True
      with Cons.prems False a le show ?thesis by auto
    next
      case nz: False
      with Cons.prems False a
      have "forward_check cbi a var un (saved(other \<mapsto> d)) (D(other \<mapsto> nd)) = Inr (f, saved', D')"
        by simp
      from Cons.IH[OF this] le show ?thesis by (rule doms_le_trans)
    qed
  qed
qed

lemma forward_check_restore:
  "forward_check cbi a var un saved D = Inr (f, saved', D') \<Longrightarrow> distinct un \<Longrightarrow>
     dom saved \<inter> set un = {} \<Longrightarrow> D' ++ saved' = D ++ saved"
proof (induction un arbitrary: saved D)
  case Nil
  then show ?case by simp
next
  case (Cons other un)
  show ?case
  proof (cases "other = var")
    case True
    with Cons show ?thesis by simp
  next
    case False
    with Cons.prems obtain d nd where a: "D other = Some d" "prune_dom cbi a other d = Inr nd"
      by (auto split: option.splits sum.splits)
    from Cons.prems have ns: "other \<notin> dom saved" by auto
    have eq: "D(other \<mapsto> nd) ++ saved(other \<mapsto> d) = D ++ saved"
    proof
      fix k show "(D(other \<mapsto> nd) ++ saved(other \<mapsto> d)) k = (D ++ saved) k"
        using a(1) ns by (cases "k = other") (auto simp: map_add_def split: option.splits)
    qed
    show ?thesis
    proof (cases "length nd = 0")
      case True
      with Cons.prems False a eq show ?thesis by auto
    next
      case nz: False
      with Cons.prems False a
      have fc: "forward_check cbi a var un (saved(other \<mapsto> d)) (D(other \<mapsto> nd)) = Inr (f, saved', D')"
        by simp
      have dj: "dom (saved(other \<mapsto> d)) \<inter> set un = {}" using Cons.prems(2,3) by auto
      have di: "distinct un" using Cons.prems(2) by simp
      from Cons.IH[OF fc di dj] have "D' ++ saved' = D(other \<mapsto> nd) ++ saved(other \<mapsto> d)" .
      from this eq show ?thesis by (rule trans)
    qed
  qed
qed

lemma inside_le: "doms_le D' D \<Longrightarrow> inside D0 D \<Longrightarrow> inside D0 D'"
  unfolding inside_def doms_le_def
proof (intro allI impI)
  fix k d assume a: "\<forall>k. rel_option subseq (D' k) (D k)"
    "\<forall>k d. D k = Some d \<longrightarrow> (\<exists>d0. D0 k = Some d0 \<and> set d \<subseteq> set d0)" "D' k = Some d"
  from a(1) have "rel_option subseq (D' k) (D k)" by simp
  with a(3) obtain d1 where d1: "D k = Some d1" "subseq d d1" by (cases "D k") auto
  from a(2) d1(1) obtain d0 where "D0 k = Some d0" "set d1 \<subseteq> set d0" by blast
  moreover have "set d \<subseteq> set d1" using d1(2) by (auto dest: list_emb_set)
  ultimately show "\<exists>d0. D0 k = Some d0 \<and> set d \<subseteq> set d0" by blast
qed

lemma inside_add: "inside D0 D \<Longrightarrow> inside D0 S \<Longrightarrow> inside D0 (D ++ S)"
  by (auto simp: inside_def map_add_def split: option.splits)

lemma forward_check_saved_inside:
  "forward_check cbi a var un saved D = Inr (f, saved', D') \<Longrightarrow> inside D0 D \<Longrightarrow> inside D0 saved \<Longrightarrow>
     inside D0 saved'"
proof (induction un arbitrary: saved D)
  case Nil
  then show ?case by simp
next
  case (Cons other un)
  show ?case
  proof (cases "other = var")
    case True
    with Cons show ?thesis by simp
  next
    case False
    with Cons.prems obtain d nd where a: "D other = Some d" "prune_dom cbi a other d = Inr nd"
      by (auto split: option.splits sum.splits)
    have w1: "inside D0 (saved(other \<mapsto> d))" using Cons.prems(2,3) a(1) by (auto simp: inside_def)
    have le: "doms_le (D(other \<mapsto> nd)) D"
      by (rule doms_le_upd[where d = d]) (simp_all add: a prune_dom_subseq[OF a(2)])
    have w2: "inside D0 (D(other \<mapsto> nd))"
      using inside_le[OF le Cons.prems(2)] .
    show ?thesis
    proof (cases "length nd = 0")
      case True
      with Cons.prems False a w1 show ?thesis by auto
    next
      case nz: False
      with Cons.prems False a
      have fc: "forward_check cbi a var un (saved(other \<mapsto> d)) (D(other \<mapsto> nd)) = Inr (f, saved', D')"
        by simp
      from Cons.IH[OF fc w2 w1] show ?thesis .
    qed
  qed
qed

lemma inside_empty: "inside D0 Map.empty"
  by (simp add: inside_def)

lemma fc_step_le: "fc_step env var v un s = Inr (f, saved, doms) \<Longrightarrow> doms_le doms (domains s)"
  by (auto simp: fc_step_def doms_le_refl split: if_splits dest: forward_check_le)

lemma fc_step_restore:
  "fc_step env var v un s = Inr (f, saved, doms) \<Longrightarrow> distinct un \<Longrightarrow> doms ++ saved = domains s"
  by (auto simp: fc_step_def split: if_splits dest: forward_check_restore)

lemma fc_step_inside:
  "fc_step env var v un s = Inr (f, saved, doms) \<Longrightarrow> inside D0 (domains s) \<Longrightarrow>
     inside D0 doms \<and> inside D0 saved"
  by (auto simp: fc_step_def inside_empty split: if_splits
      dest: forward_check_le forward_check_saved_inside[OF _ _ inside_empty] intro: inside_le)

lemma undo_assigned_assignment:
  "var \<notin> fst ` set (assignment s) \<Longrightarrow> assignment (undo var saved (assigned var v doms s)) = assignment s"
  by (simp add: delete_update_same)

lemma undo_failed_assignment:
  "recurse2 n env (assigned var v doms s) = Inr (False, s3) \<Longrightarrow> var \<notin> fst ` set (assignment s) \<Longrightarrow>
     assignment (undo var saved s3) = assignment s"
  by (drule recurse2_assignment_failed) (simp add: delete_update_same)

lemma good_asg_update:
  assumes g: "good_asg env asg" and v1: "var \<in> set (course_ids env)" and v2: "var \<notin> fst ` set asg"
    and vi: "violates asg (courses_by_id env) var v = Inr False"
  shows "good_asg env (AList.update var v asg)"
proof -
  let ?cbi = "courses_by_id env"
  from vi obtain c where c: "?cbi var = Some c" and vl: "violates_loop ?cbi c v asg = Inr False"
    by (auto simp: violates_def split: option.splits)
  have new: "\<exists>other. ?cbi (fst e) = Some other \<and> teacher other \<noteq> teacher c \<and>
       set (groups other) \<inter> set (groups c) = {} \<and> snd (snd e) \<noteq> snd v"
    if "e \<in> set asg" "fst (snd e) = fst v" for e
    using violates_loop_False[OF vl that] .
  have upd: "AList.update var v asg = asg @ [(var, v)]" using v2 by (rule update_fresh)
  have old: "\<exists>c1 c2. ?cbi (fst e1) = Some c1 \<and> ?cbi (fst e2) = Some c2 \<and> teacher c1 \<noteq> teacher c2 \<and>
           set (groups c1) \<inter> set (groups c2) = {} \<and> snd (snd e1) \<noteq> snd (snd e2)"
    if "e1 \<in> set asg" "e2 \<in> set asg" "fst e1 \<noteq> fst e2" "fst (snd e1) = fst (snd e2)" for e1 e2
    using g that unfolding good_asg_def consistent_def by blast
  have "consistent ?cbi (asg @ [(var, v)])"
    unfolding consistent_def
  proof (intro ballI impI)
    fix e1 e2 assume e: "e1 \<in> set (asg @ [(var, v)])" "e2 \<in> set (asg @ [(var, v)])"
      and ne: "fst e1 \<noteq> fst e2 \<and> fst (snd e1) = fst (snd e2)"
    consider "e1 \<in> set asg" "e2 \<in> set asg" | "e1 \<in> set asg" "e2 = (var, v)"
      | "e1 = (var, v)" "e2 \<in> set asg" | "e1 = (var, v)" "e2 = (var, v)"
      using e by auto
    then show "\<exists>c1 c2. ?cbi (fst e1) = Some c1 \<and> ?cbi (fst e2) = Some c2 \<and> teacher c1 \<noteq> teacher c2 \<and>
           set (groups c1) \<inter> set (groups c2) = {} \<and> snd (snd e1) \<noteq> snd (snd e2)"
    proof cases
      case 1
      with old ne show ?thesis by blast
    next
      case 2
      with new[of e1] ne c show ?thesis by auto
    next
      case 3
      with new[of e2] ne c show ?thesis by (auto simp: Int_commute)
    next
      case 4
      with ne show ?thesis by simp
    qed
  qed
  moreover have "distinct (map fst (asg @ [(var, v)]))" using g v2 by (auto simp: good_asg_def)
  moreover have "fst ` set (asg @ [(var, v)]) \<subseteq> set (course_ids env)" using g v1 by (auto simp: good_asg_def)
  ultimately show ?thesis by (simp add: good_asg_def upd)
qed

text \<open>A successful call returns a complete assignment without conflicts.\<close>

lemma try_vals_success_aux:
  assumes rec: "\<And>s s'. recurse2 n env s = Inr (True, s') \<Longrightarrow> good_asg env (assignment s) \<Longrightarrow>
      complete_good env s'"
  shows "try_vals n env var un vals s = Inr (True, s') \<Longrightarrow> var \<in> set (course_ids env) \<Longrightarrow>
           var \<notin> fst ` set (assignment s) \<Longrightarrow> good_asg env (assignment s) \<Longrightarrow> complete_good env s'"
proof (induction vals arbitrary: s)
  case Nil
  then show ?case by auto
next
  case (Cons v vals)
  from Cons.prems(1) show ?case
  proof (cases rule: try_vals_Cons_cases)
    case skip
    with Cons.IH[of "s\<lparr>tries := tries s + 1\<rparr>"] Cons.prems show ?thesis by simp
  next
    case (wipe saved doms)
    with Cons.IH[of "undo var saved (assigned var v doms s)"] Cons.prems show ?thesis
      by (simp add: delete_update_same)
  next
    case (success saved doms)
    from good_asg_update[OF Cons.prems(4,2,3) success(1)] rec[OF success(3)] show ?thesis by simp
  next
    case (failed saved doms s3)
    from undo_failed_assignment[OF failed(3) Cons.prems(3)] Cons.IH[of "undo var saved s3"] failed(4)
      Cons.prems
    show ?thesis by simp
  qed
qed

lemma recurse2_success:
  "recurse2 n env s = Inr (True, s') \<Longrightarrow> good_asg env (assignment s) \<Longrightarrow> complete_good env s'"
proof (induction n arbitrary: s s')
  case 0
  then show ?case by simp
next
  case (Suc n)
  from Suc.prems(1) show ?case
  proof (cases rule: recurse2_Suc_cases)
    case full
    with Suc.prems(2) show ?thesis by (simp add: complete_good_def)
  next
    case (loop var vals)
    from select_mrv_unassigned[OF loop(3)]
    have "var \<in> set (course_ids env)" "var \<notin> fst ` set (assignment (s\<lparr>tick := Suc (tick s)\<rparr>))"
      by simp_all
    from try_vals_success_aux[OF Suc.IH loop(6) this] Suc.prems(2) show ?thesis by simp
  qed auto
qed

text \<open>Domains stay inside the initial ones, and assigned values come from them.\<close>

lemma asg_from_update:
  "asg_from D0 asg \<Longrightarrow> D0 var = Some d0 \<Longrightarrow> v \<in> set d0 \<Longrightarrow> asg_from D0 (AList.update var v asg)"
proof -
  assume a: "asg_from D0 asg" "D0 var = Some d0" "v \<in> set d0"
  have sub: "set (AList.update var v asg) \<subseteq> insert (var, v) (set asg)" by (induction asg) auto
  show "asg_from D0 (AList.update var v asg)"
    unfolding asg_from_def
  proof
    fix e assume "e \<in> set (AList.update var v asg)"
    with sub have "e = (var, v) \<or> e \<in> set asg" by auto
    then show "\<exists>d0. D0 (fst e) = Some d0 \<and> snd e \<in> set d0"
      using a unfolding asg_from_def by auto
  qed
qed

lemma asg_from_delete: "asg_from D0 asg \<Longrightarrow> asg_from D0 (AList.delete var asg)"
  by (auto simp: asg_from_def AList.delete_eq)

lemma try_vals_kept_aux:
  assumes rec: "\<And>s b s'. recurse2 n env s = Inr (b, s') \<Longrightarrow> kept D0 s \<Longrightarrow> kept D0 s'"
  shows "try_vals n env var un vals s = Inr (b, s') \<Longrightarrow> kept D0 s \<Longrightarrow> D0 var = Some d0 \<Longrightarrow>
           set vals \<subseteq> set d0 \<Longrightarrow> kept D0 s'"
proof (induction vals arbitrary: s)
  case Nil
  then show ?case by (auto simp: kept_def)
next
  case (Cons v vals)
  have sub: "set vals \<subseteq> set d0" and v: "v \<in> set d0" using Cons.prems(4) by auto
  have step: "kept D0 (assigned var v doms s) \<and> inside D0 saved"
    if "fc_step env var v un s = Inr (f, saved, doms)" for f saved doms
    using fc_step_inside[OF that, of D0] Cons.prems(2,3) v by (simp add: kept_def asg_from_update)
  have un: "kept D0 (undo var saved t)" if "kept D0 t" "inside D0 saved" for t saved
    using that by (simp add: kept_def inside_add asg_from_delete)
  from Cons.prems(1) show ?case
  proof (cases rule: try_vals_Cons_cases)
    case skip
    from Cons.IH[OF skip(2) _ Cons.prems(3) sub] Cons.prems(2) show ?thesis by (simp add: kept_def)
  next
    case (wipe saved doms)
    from step[OF wipe(2)] have "kept D0 (undo var saved (assigned var v doms s))" by (simp add: un)
    from Cons.IH[OF wipe(3) this Cons.prems(3) sub] show ?thesis .
  next
    case (success saved doms)
    from rec[OF success(3)] step[OF success(2)] show ?thesis by simp
  next
    case (failed saved doms s3)
    from rec[OF failed(3)] step[OF failed(2)] have "kept D0 (undo var saved s3)" by (simp add: un)
    from Cons.IH[OF failed(4) this Cons.prems(3) sub] show ?thesis .
  qed
qed

lemma recurse2_kept:
  "recurse2 n env s = Inr (b, s') \<Longrightarrow> kept D0 s \<Longrightarrow> kept D0 s'"
proof (induction n arbitrary: s b s')
  case 0
  then show ?case by simp
next
  case (Suc n)
  from Suc.prems(1) show ?case
  proof (cases rule: recurse2_Suc_cases)
    case (loop var vals)
    from lcv_order_mset[OF loop(4)] obtain d where d: "domains s var = Some d" "mset vals = mset d"
      by blast
    from d(1) Suc.prems(2) obtain d0 where d0: "D0 var = Some d0" "set d \<subseteq> set d0"
      unfolding kept_def inside_def by blast
    have "set vals \<subseteq> set d0" using mset_eq_setD[OF d(2)] d0(2) by simp
    from try_vals_kept_aux[OF Suc.IH loop(6) _ d0(1) this] Suc.prems(2) show ?thesis
      by (simp add: kept_def)
  qed (use Suc.prems(2) in \<open>auto simp: kept_def\<close>)
qed

text \<open>With distinct course ids a failed call restores the domains exactly.\<close>

lemma try_vals_domains_aux:
  assumes rec: "\<And>s s'. recurse2 n env s = Inr (False, s') \<Longrightarrow> domains s' = domains s"
  shows "try_vals n env var un vals s = Inr (False, s') \<Longrightarrow> distinct un \<Longrightarrow> domains s' = domains s"
proof (induction vals arbitrary: s)
  case Nil
  then show ?case by auto
next
  case (Cons v vals)
  from Cons.prems(1) show ?case
  proof (cases rule: try_vals_Cons_cases)
    case skip
    from Cons.IH[OF skip(2) Cons.prems(2)] show ?thesis by simp
  next
    case (wipe saved doms)
    from Cons.IH[OF wipe(3) Cons.prems(2)] fc_step_restore[OF wipe(2) Cons.prems(2)] show ?thesis by simp
  next
    case (success saved doms)
    then show ?thesis by simp
  next
    case (failed saved doms s3)
    from rec[OF failed(3)] have "domains s3 = doms" by simp
    with Cons.IH[OF failed(4) Cons.prems(2)] fc_step_restore[OF failed(2) Cons.prems(2)] show ?thesis
      by simp
  qed
qed

lemma recurse2_domains_failed:
  "distinct (course_ids env) \<Longrightarrow> recurse2 n env s = Inr (False, s') \<Longrightarrow> domains s' = domains s"
proof (induction n arbitrary: s s')
  case 0
  then show ?case by simp
next
  case (Suc n)
  from Suc.prems(2) show ?case
  proof (cases rule: recurse2_Suc_cases)
    case (loop var vals)
    have "distinct (unassigned_of env s)" using Suc.prems(1) by (simp add: unassigned_of_def)
    from try_vals_domains_aux[OF Suc.IH[OF Suc.prems(1)] loop(6) this] show ?thesis by simp
  qed auto
qed

text \<open>No successful call has seen the deadline exceeded, when the clock never runs backwards.\<close>

lemma try_vals_no_timeout_aux:
  assumes rec: "\<And>s s'. recurse2 n env s = Inr (True, s') \<Longrightarrow> \<forall>k < tick s'. \<not> timeout env k"
  shows "try_vals n env var un vals s = Inr (True, s') \<Longrightarrow> \<forall>k < tick s'. \<not> timeout env k"
proof (induction vals arbitrary: s)
  case Nil
  then show ?case by auto
next
  case (Cons v vals)
  from Cons.prems(1) show ?case
  proof (cases rule: try_vals_Cons_cases)
    case skip
    from Cons.IH[OF skip(2)] show ?thesis .
  next
    case (wipe saved doms)
    from Cons.IH[OF wipe(3)] show ?thesis .
  next
    case (success saved doms)
    from rec[OF success(3)] show ?thesis .
  next
    case (failed saved doms s3)
    from Cons.IH[OF failed(4)] show ?thesis .
  qed
qed

lemma recurse2_no_timeout:
  "mono (clock env) \<Longrightarrow> recurse2 n env s = Inr (True, s') \<Longrightarrow> \<forall>k < tick s'. \<not> timeout env k"
proof (induction n arbitrary: s s')
  case 0
  then show ?case by simp
next
  case (Suc n)
  from Suc.prems(2) show ?case
  proof (cases rule: recurse2_Suc_cases)
    case full
    have "\<not> timeout env k" if "k < Suc (tick s)" for k
    proof -
      from that have "clock env k \<le> clock env (tick s)" using Suc.prems(1) by (simp add: monoD)
      with full(1) show ?thesis by (simp add: timeout_def)
    qed
    with full show ?thesis by simp
  next
    case (loop var vals)
    from try_vals_no_timeout_aux[OF Suc.IH[OF Suc.prems(1)] loop(6)] show ?thesis by simp
  qed auto
qed

lemma complete_good_all:
  assumes "complete_good env s"
  shows "distinct (course_ids env) \<and> fst ` set (assignment s) = set (course_ids env)"
proof -
  let ?ks = "map fst (assignment s)"
  from assms have d: "distinct ?ks" and sub: "set ?ks \<subseteq> set (course_ids env)"
    and len: "length ?ks = length (course_ids env)"
    by (auto simp: complete_good_def good_asg_def)
  have "card (set ?ks) = length (course_ids env)" using distinct_card[OF d] len by simp
  moreover have "card (set ?ks) \<le> card (set (course_ids env))" using sub by (simp add: card_mono)
  moreover have "card (set (course_ids env)) \<le> length (course_ids env)" by (rule card_length)
  ultimately have c: "card (set (course_ids env)) = length (course_ids env)"
    and e: "card (set ?ks) = card (set (course_ids env))" by auto
  from c have "distinct (course_ids env)" by (rule card_distinct)
  moreover from sub e have "set ?ks = set (course_ids env)" by (simp add: card_subset_eq)
  ultimately show ?thesis by simp
qed

lemma backtrack_search_Inr:
  assumes "backtrack_search clk courses domains_init fc time_limit_ms = Inr r"
  obtains s where
    "recurse2 (Suc (length courses)) (search_env_of clk courses fc time_limit_ms)
       (initial_state domains_init) = Inr (found r, s)"
    "solution r = assignment s" "n_backtracks r = backtracks s" "assignments_tried r = tries s"
  using assms by (auto simp: backtrack_search_def split: sum.splits prod.splits)

lemma env_simps [simp]:
  "course_ids (search_env_of clk courses fc ms) = map cid courses"
  "courses_by_id (search_env_of clk courses fc ms) = by_id courses"
  "forward_checking (search_env_of clk courses fc ms) = fc"
  "clock (search_env_of clk courses fc ms) = clk"
  "time_limit_s (search_env_of clk courses fc ms) = real_of_int ms / 1000"
  by (simp_all add: search_env_of_def)

lemma initial_simps [simp]:
  "assignment (initial_state D) = []" "domains (initial_state D) = D"
  "tries (initial_state D) = 0" "backtracks (initial_state D) = 0" "tick (initial_state D) = 0"
  by (simp_all add: initial_state_def)

lemma found_complete_good:
  assumes "backtrack_search clk courses domains_init fc time_limit_ms = Inr r" and "found r"
  shows "good_asg (search_env_of clk courses fc time_limit_ms) (solution r) \<and>
         distinct (map cid courses) \<and> fst ` set (solution r) = set (map cid courses)"
proof -
  let ?env = "search_env_of clk courses fc time_limit_ms"
  from assms(1) obtain s where s: "recurse2 (Suc (length courses)) ?env (initial_state domains_init) = Inr (found r, s)"
    "solution r = assignment s" by (rule backtrack_search_Inr)
  have "good_asg ?env (assignment (initial_state domains_init))"
    by (simp add: good_asg_def consistent_def)
  moreover from s(1) assms(2)
  have "recurse2 (Suc (length courses)) ?env (initial_state domains_init) = Inr (True, s)" by simp
  ultimately have cg: "complete_good ?env s" by (rule recurse2_success[rotated])
  from complete_good_all[OF cg] cg show ?thesis by (simp add: s(2) complete_good_def)
qed

lemmas search_eval =
  backtrack_search_def search_env_of_def initial_state_def by_id_def select_mrv_def lcv_order_def
  violates_def timeout_def recurse2.simps try_vals.simps build_domains_def course_domain_def
  zero_clock_def late_clock_def two_slots_def one_room_def

lemma pair_plain:
  "backtrack_search zero_clock pair_courses (build_domains pair_courses two_slots one_room) False 20000 =
     Inr \<lparr>found = True, time_ms = 0, n_backtracks = 0, assignments_tried = 3,
          solution = [(''C1'', ''Mon_9'', ''R1''), (''C2'', ''Mon_11'', ''R1'')]\<rparr>"
  by (simp add: search_eval pair_courses_def)

lemma pair_fc:
  "backtrack_search zero_clock pair_courses (build_domains pair_courses two_slots one_room) True 20000 =
     Inr \<lparr>found = True, time_ms = 0, n_backtracks = 0, assignments_tried = 2,
          solution = [(''C1'', ''Mon_9'', ''R1''), (''C2'', ''Mon_11'', ''R1'')]\<rparr>"
  by (simp add: search_eval pair_courses_def)

lemma triple_plain:
  "backtrack_search zero_clock triple_courses (build_domains triple_courses two_slots one_room) False 20000 =
     Inr \<lparr>found = False, time_ms = 0, n_backtracks = 5, assignments_tried = 10, solution = []\<rparr>"
  by (simp add: search_eval triple_courses_def)

lemma triple_fc:
  "backtrack_search zero_clock triple_courses (build_domains triple_courses two_slots one_room) True 20000 =
     Inr \<lparr>found = False, time_ms = 0, n_backtracks = 3, assignments_tried = 4, solution = []\<rparr>"
  by (simp add: search_eval triple_courses_def)

lemma six_plain:
  "backtrack_search zero_clock six_courses six_domains False 20000 =
     Inr \<lparr>found = True, time_ms = 0, n_backtracks = 0, assignments_tried = 10,
          solution = [(''A'', ''1'', ''R''), (''B'', ''4'', ''R''), (''D'', ''2'', ''R''),
                      (''C'', ''3'', ''R''), (''E'', ''5'', ''R''), (''F'', ''7'', ''R'')]\<rparr>"
  by (simp add: search_eval six_courses_def six_domains_def)

lemma six_fc:
  "backtrack_search zero_clock six_courses six_domains True 20000 =
     Inr \<lparr>found = True, time_ms = 0, n_backtracks = 1, assignments_tried = 8,
          solution = [(''A'', ''1'', ''R''), (''C'', ''3'', ''R''), (''B'', ''2'', ''R''),
                      (''D'', ''4'', ''R''), (''E'', ''5'', ''R''), (''F'', ''7'', ''R'')]\<rparr>"
  by (simp add: search_eval six_courses_def six_domains_def)

lemma late_pair:
  "backtrack_search late_clock pair_courses (build_domains pair_courses two_slots one_room) True 500 =
     Inr \<lparr>found = False, time_ms = 1000, n_backtracks = 1, assignments_tried = 2, solution = []\<rparr>"
  by (simp add: search_eval pair_courses_def)

lemma twin_run:
  "(case recurse2 (Suc (length twin_courses)) (search_env_of zero_clock twin_courses True 20000) (initial_state twin_domains) of
      Inl e \<Rightarrow> None
    | Inr (ok, s) \<Rightarrow> Some (ok, domains s ''X'')) = Some (False, Some [(''Mon_11'', ''R1'')])"
  by (simp add: search_eval twin_courses_def twin_domains_def)

lemma missing_domain:
  "backtrack_search zero_clock pair_courses Map.empty False 20000 = Inl KeyError"
  by (simp add: search_eval pair_courses_def)

lemma not_islE:
  assumes "\<not> isl x"
  obtains r where "x = Inr r"
  using assms by (cases x) auto

lemma violates_ok:
  "var \<in> dom cbi \<Longrightarrow> fst ` set asg \<subseteq> dom cbi \<Longrightarrow> \<not> isl (violates asg cbi var v)"
  by (auto simp: violates_def violates_loop_known)

lemma prune_dom_ok:
  "other \<in> dom cbi \<Longrightarrow> fst ` set a \<subseteq> dom cbi \<Longrightarrow> \<not> isl (prune_dom cbi a other d)"
proof (induction d)
  case Nil
  then show ?case by simp
next
  case (Cons ov d)
  from violates_ok[OF Cons.prems, of ov] obtain b where "violates a cbi other ov = Inr b"
    by (rule not_islE)
  moreover from Cons obtain nd where "prune_dom cbi a other d = Inr nd" by (blast elim: not_islE)
  ultimately show ?case by simp
qed

lemma forward_check_ok:
  "set un \<subseteq> dom D \<Longrightarrow> set un \<subseteq> dom cbi \<Longrightarrow> fst ` set a \<subseteq> dom cbi \<Longrightarrow>
     \<not> isl (forward_check cbi a var un saved D)"
proof (induction un arbitrary: saved D)
  case Nil
  then show ?case by simp
next
  case (Cons other un)
  from Cons.prems obtain d where d: "D other = Some d" by auto
  from Cons.prems have "other \<in> dom cbi" by simp
  from prune_dom_ok[OF this Cons.prems(3), of d] obtain nd where nd: "prune_dom cbi a other d = Inr nd"
    by (rule not_islE)
  have u2: "set un \<subseteq> dom cbi" using Cons.prems(2) by simp
  have "set un \<subseteq> dom (D(other \<mapsto> nd))" using Cons.prems(1) by auto
  from Cons.IH[OF this u2 Cons.prems(3), of "saved(other \<mapsto> d)"]
  have r: "\<not> isl (forward_check cbi a var un (saved(other \<mapsto> d)) (D(other \<mapsto> nd)))" .
  have "set un \<subseteq> dom D" using Cons.prems(1) by simp
  from Cons.IH[OF this u2 Cons.prems(3), of saved]
  have r': "\<not> isl (forward_check cbi a var un saved D)" .
  show ?case using r r' by (simp add: d nd)
qed

lemma doms_le_dom: "doms_le D' D \<Longrightarrow> dom D' = dom D"
proof -
  assume a: "doms_le D' D"
  have "D' k = None \<longleftrightarrow> D k = None" for k
    using a[unfolded doms_le_def, rule_format, of k] by (cases "D' k"; cases "D k") auto
  then show "dom D' = dom D" by (auto simp: dom_def)
qed

lemma lcv_order_ok:
  "var \<in> dom D \<Longrightarrow> var \<in> dom cbi \<Longrightarrow> set un \<subseteq> dom cbi \<Longrightarrow> set un \<subseteq> dom D \<Longrightarrow>
     \<not> isl (lcv_order var D un cbi)"
  using lcv_order_known[of D var _ cbi un] by auto

lemma unassigned_shrinks:
  assumes "var \<in> set ids" "var \<notin> fst ` set asg"
  shows "length (filter (\<lambda>x. x \<notin> fst ` set (AList.update var v asg)) ids)
           < length (filter (\<lambda>x. x \<notin> fst ` set asg) ids)"
proof -
  have k: "fst ` set (AList.update var v asg) = insert var (fst ` set asg)"
    using assms(2) by (simp add: update_fresh)
  have eq: "filter (\<lambda>x. x \<notin> fst ` set (AList.update var v asg)) ids
          = filter (\<lambda>x. x \<notin> fst ` set asg \<and> x \<noteq> var) ids"
    by (auto simp: k intro: filter_cong)
  have mem: "var \<in> set (filter (\<lambda>x. x \<notin> fst ` set asg) ids)" using assms by simp
  have "length (filter (\<lambda>x. x \<notin> fst ` set asg \<and> x \<noteq> var) ids)
          < length (filter (\<lambda>x. x \<notin> fst ` set asg) ids)"
    using length_filter_less[OF mem, of "\<lambda>x. x \<noteq> var"] by simp
  then show ?thesis by (simp only: eq)
qed

text \<open>No call removes a key from the domains.\<close>

lemma dom_chain:
  "dom D1 = dom D0 \<Longrightarrow> dom D1 \<subseteq> dom D2 \<Longrightarrow> dom (D2 ++ S) \<subseteq> dom D3 \<Longrightarrow> dom D0 \<subseteq> dom D3"
  by (simp only: dom_map_add) blast

lemma try_vals_dom_aux:
  assumes rec: "\<And>s b s'. recurse2 n env s = Inr (b, s') \<Longrightarrow> dom (domains s) \<subseteq> dom (domains s')"
  shows "try_vals n env var un vals s = Inr (b, s') \<Longrightarrow> dom (domains s) \<subseteq> dom (domains s')"
proof (induction vals arbitrary: s)
  case Nil
  then show ?case by auto
next
  case (Cons v vals)
  from Cons.prems show ?case
  proof (cases rule: try_vals_Cons_cases)
    case skip
    from Cons.IH[OF skip(2)] show ?thesis by simp
  next
    case (wipe saved doms)
    from Cons.IH[OF wipe(3)] have "dom (doms ++ saved) \<subseteq> dom (domains s')" by simp
    from dom_chain[OF doms_le_dom[OF fc_step_le[OF wipe(2)]] subset_refl this] show ?thesis .
  next
    case (success saved doms)
    from rec[OF success(3)] doms_le_dom[OF fc_step_le[OF success(2)]] show ?thesis by simp
  next
    case (failed saved doms s3)
    from Cons.IH[OF failed(4)] have a: "dom (domains s3 ++ saved) \<subseteq> dom (domains s')" by simp
    from rec[OF failed(3)] have b: "dom doms \<subseteq> dom (domains s3)" by simp
    from dom_chain[OF doms_le_dom[OF fc_step_le[OF failed(2)]] b a] show ?thesis .
  qed
qed

lemma recurse2_dom:
  "recurse2 n env s = Inr (b, s') \<Longrightarrow> dom (domains s) \<subseteq> dom (domains s')"
proof (induction n arbitrary: s b s')
  case 0
  then show ?case by simp
next
  case (Suc n)
  from Suc.prems show ?case
  proof (cases rule: recurse2_Suc_cases)
    case (loop var vals)
    from try_vals_dom_aux[OF Suc.IH loop(6)] show ?thesis by simp
  qed auto
qed

text \<open>
  In the model, with a domain for every course and more fuel than unassigned courses, the
  search returns a result: no lookup fails and the fuel is not used up.  The fuel
  therefore cuts off no run of the model; it stands for no limit of the interpreter.
\<close>

lemma wf_state_same:
  "wf_state env s \<Longrightarrow> assignment t = assignment s \<Longrightarrow> dom (domains s) \<subseteq> dom (domains t) \<Longrightarrow>
     wf_state env t"
  unfolding wf_state_def by (simp only:) blast

lemma try_vals_returns_aux:
  assumes rec: "\<And>s. wf_state env s \<Longrightarrow> length (unassigned_of env s) < n \<Longrightarrow> \<not> isl (recurse2 n env s)"
    and var: "var \<in> set (course_ids env)" and un: "set un \<subseteq> set (course_ids env)"
  shows "wf_state env s \<Longrightarrow> var \<notin> fst ` set (assignment s) \<Longrightarrow> length (unassigned_of env s) \<le> n \<Longrightarrow>
           \<not> isl (try_vals n env var un vals s)"
proof (induction vals arbitrary: s)
  case Nil
  then show ?case by simp
next
  case (Cons v vals)
  let ?cbi = "courses_by_id env"
  from Cons.prems(1) have w: "set (course_ids env) \<subseteq> dom (domains s)" "set (course_ids env) \<subseteq> dom ?cbi"
    "fst ` set (assignment s) \<subseteq> set (course_ids env)" by (auto simp: wf_state_def)
  have keys: "fst ` set (assignment s) \<subseteq> dom ?cbi" using w by auto
  have "var \<in> dom ?cbi" using w var by auto
  from violates_ok[OF this keys, of v] obtain viol where vi: "violates (assignment s) ?cbi var v = Inr viol"
    by (rule not_islE)
  show ?case
  proof (cases viol)
    case True
    have "wf_state env (s\<lparr>tries := tries s + 1\<rparr>)" using Cons.prems(1) by (simp add: wf_state_def)
    from Cons.IH[OF this] Cons.prems(2,3)
    have "\<not> isl (try_vals n env var un vals (s\<lparr>tries := tries s + 1\<rparr>))"
      by (simp add: unassigned_of_def)
    then show ?thesis by (subst try_vals_Cons) (simp add: vi True)
  next
    case False
    have ukeys: "fst ` set (AList.update var v (assignment s)) \<subseteq> set (course_ids env)"
      using w(3) var Cons.prems(2) by (simp add: update_fresh)
    have "\<not> isl (fc_step env var v un s)"
    proof (cases "forward_checking env")
      case True
      have "set un \<subseteq> dom (domains s)" "set un \<subseteq> dom ?cbi" "fst ` set (AList.update var v (assignment s)) \<subseteq> dom ?cbi"
        using un w ukeys by auto
      from forward_check_ok[OF this] True show ?thesis by (simp add: fc_step_def)
    next
      case False
      then show ?thesis by (simp add: fc_step_def)
    qed
    then obtain r0 where "fc_step env var v un s = Inr r0" by (rule not_islE)
    then obtain f saved doms where st: "fc_step env var v un s = Inr (f, saved, doms)"
      by (cases r0) auto
    have dd: "dom doms = dom (domains s)" by (rule doms_le_dom[OF fc_step_le[OF st]])
    have wa: "wf_state env (assigned var v doms s)"
      using w ukeys dd by (simp add: wf_state_def)
    have again: "\<not> isl (try_vals n env var un vals (undo var saved t))"
      if "assignment t = AList.update var v (assignment s)" "dom doms \<subseteq> dom (domains t)" for t
    proof -
      have a: "assignment (undo var saved t) = assignment s"
        using that(1) Cons.prems(2) by (simp add: delete_update_same)
      have "dom (domains s) \<subseteq> dom (domains (undo var saved t))"
        using that(2) dd by (simp only: domains_undo dom_map_add) blast
      from wf_state_same[OF Cons.prems(1) a this] have "wf_state env (undo var saved t)" .
      from Cons.IH[OF this] a Cons.prems(2,3) show ?thesis by (simp add: unassigned_of_def)
    qed
    show ?thesis
    proof (cases f)
      case True
      from again[of "assigned var v doms s"]
      have "\<not> isl (try_vals n env var un vals (undo var saved (assigned var v doms s)))" by simp
      then show ?thesis by (subst try_vals_Cons) (simp add: vi False st True)
    next
      case nf: False
      have "length (unassigned_of env (assigned var v doms s)) < length (unassigned_of env s)"
        using unassigned_shrinks[OF var Cons.prems(2)] by (simp add: unassigned_of_def)
      with Cons.prems(3) have "length (unassigned_of env (assigned var v doms s)) < n" by simp
      from rec[OF wa this] obtain r1 where "recurse2 n env (assigned var v doms s) = Inr r1"
        by (rule not_islE)
      then obtain b s3 where r: "recurse2 n env (assigned var v doms s) = Inr (b, s3)"
        by (cases r1) auto
      show ?thesis
      proof (cases b)
        case True
        with r show ?thesis by (subst try_vals_Cons) (simp add: vi False st nf)
      next
        case fb: False
        from r fb have rf: "recurse2 n env (assigned var v doms s) = Inr (False, s3)" by simp
        from recurse2_assignment_failed[OF rf]
        have a3: "assignment s3 = AList.update var v (assignment s)" by simp
        from recurse2_dom[OF r] have "dom doms \<subseteq> dom (domains s3)" by simp
        from again[OF a3 this] have "\<not> isl (try_vals n env var un vals (undo var saved s3))" .
        with rf show ?thesis by (subst try_vals_Cons) (simp add: vi False st nf)
      qed
    qed
  qed
qed

lemma recurse2_returns:
  "wf_state env s \<Longrightarrow> length (unassigned_of env s) < n \<Longrightarrow> \<not> isl (recurse2 n env s)"
proof (induction n arbitrary: s)
  case 0
  then show ?case by simp
next
  case (Suc n)
  let ?un = "unassigned_of env s"
  let ?cbi = "courses_by_id env"
  from Suc.prems(1) have w: "set (course_ids env) \<subseteq> dom (domains s)" "set (course_ids env) \<subseteq> dom ?cbi"
    by (auto simp: wf_state_def)
  have un: "set ?un \<subseteq> set (course_ids env)" by (auto simp: unassigned_of_def)
  from select_mrv_ok[of ?un "domains s"] un w obtain m where m: "select_mrv ?un (domains s) = Inr m"
    by blast
  show ?case
  proof (cases m)
    case None
    with m show ?thesis by (simp add: recurse2_Suc)
  next
    case (Some var)
    from select_mrv_unassigned[of env s var] m Some
    have var: "var \<in> set (course_ids env)" "var \<notin> fst ` set (assignment s)" by simp_all
    have "var \<in> dom (domains s)" "var \<in> dom ?cbi" "set ?un \<subseteq> dom ?cbi" "set ?un \<subseteq> dom (domains s)"
      using var(1) w un by auto
    from lcv_order_ok[OF this] obtain vals where vals: "lcv_order var (domains s) ?un ?cbi = Inr vals"
      by (rule not_islE)
    have ws: "wf_state env (s\<lparr>tick := Suc (tick s)\<rparr>)" using Suc.prems(1) by (simp add: wf_state_def)
    have "length (unassigned_of env (s\<lparr>tick := Suc (tick s)\<rparr>)) \<le> n"
      using Suc.prems(2) by (simp add: unassigned_of_def)
    from try_vals_returns_aux[OF Suc.IH var(1) un ws _ this, of vals] var(2)
    have "\<not> isl (try_vals n env var ?un vals (s\<lparr>tick := Suc (tick s)\<rparr>))" by simp
    with m Some vals show ?thesis by (simp add: recurse2_Suc)
  qed
qed

lemma backtrack_search_returns:
  assumes "cid ` set courses \<subseteq> dom domains_init"
  shows "\<not> isl (backtrack_search clk courses domains_init fc time_limit_ms)"
proof -
  let ?env = "search_env_of clk courses fc time_limit_ms"
  have "wf_state ?env (initial_state domains_init)" using assms by (simp add: wf_state_def dom_by_id)
  moreover have "length (unassigned_of ?env (initial_state domains_init)) < Suc (length courses)"
    by (simp add: unassigned_of_def)
  ultimately have "\<not> isl (recurse2 (Suc (length courses)) ?env (initial_state domains_init))"
    by (rule recurse2_returns)
  then show ?thesis by (auto simp: backtrack_search_def split: sum.splits)
qed

lemma same_slot_plain:
  "backtrack_search zero_clock pair_courses (build_domains pair_courses one_slot two_rooms) False 20000 =
     Inr \<lparr>found = True, time_ms = 0, n_backtracks = 0, assignments_tried = 3,
          solution = [(''C1'', ''Mon_9'', ''R1''), (''C2'', ''Mon_9'', ''R2'')]\<rparr>"
  by (simp add: search_eval pair_courses_def two_rooms_def one_slot_def)

section \<open>The claims\<close>

subsection \<open>violates\<close>

text \<open>
  Claim C6, as the code has it: when the variable has an entry in \<open>course_by_id\<close>
  and so has every assigned variable, \<open>violates\<close> returns true if and only if some
  assigned variable has the candidate's timeslot and the same teacher, a common group or
  the candidate's room; and it returns true at the first such entry, whatever follows it
  in the assignment.  The function returns a value and changes nothing.
\<close>

theorem violates_iff_conflict:
  assumes "course_by_id course_id = Some c"
  shows "(fst ` set asg \<subseteq> dom course_by_id \<longrightarrow>
            violates asg course_by_id course_id (ts, room) =
              Inr (\<exists>e \<in> set asg. conflict course_by_id c (ts, room) e)) \<and>
         (fst ` set pre \<subseteq> dom course_by_id \<and> conflict course_by_id c (ts, room) e \<longrightarrow>
            violates (pre @ e # rest) course_by_id course_id (ts, room) = Inr True)"
  using assms by (simp add: violates_def violates_loop_known violates_loop_first)

theorem violates_iff_conflict_witness:
  "[''CS101'' \<mapsto> \<lparr>cid = ''CS101'', teacher = ''T1'', groups = [''G1'', ''G2''], csize = 40\<rparr>,
    ''MA101'' \<mapsto> \<lparr>cid = ''MA101'', teacher = ''T2'', groups = [''G1''], csize = 30\<rparr>] ''MA101''
     = Some \<lparr>cid = ''MA101'', teacher = ''T2'', groups = [''G1''], csize = 30\<rparr> \<and>
   violates [(''CS101'', (''Mon_9'', ''R1''))]
     [''CS101'' \<mapsto> \<lparr>cid = ''CS101'', teacher = ''T1'', groups = [''G1'', ''G2''], csize = 40\<rparr>,
      ''MA101'' \<mapsto> \<lparr>cid = ''MA101'', teacher = ''T2'', groups = [''G1''], csize = 30\<rparr>]
     ''MA101'' (''Mon_9'', ''R3'') = Inr True \<and>
   violates [(''CS101'', (''Mon_9'', ''R1''))]
     [''CS101'' \<mapsto> \<lparr>cid = ''CS101'', teacher = ''T1'', groups = [''G1'', ''G2''], csize = 40\<rparr>,
      ''MA101'' \<mapsto> \<lparr>cid = ''MA101'', teacher = ''T2'', groups = [''G1''], csize = 30\<rparr>]
     ''MA101'' (''Mon_11'', ''R1'') = Inr False"
  using violates_iff_conflict [of
      "[''CS101'' \<mapsto> \<lparr>cid = ''CS101'', teacher = ''T1'', groups = [''G1'', ''G2''], csize = 40\<rparr>,
        ''MA101'' \<mapsto> \<lparr>cid = ''MA101'', teacher = ''T2'', groups = [''G1''], csize = 30\<rparr>]"
      "''MA101''" "\<lparr>cid = ''MA101'', teacher = ''T2'', groups = [''G1''], csize = 30\<rparr>"
      "[(''CS101'', (''Mon_9'', ''R1''))]" "''Mon_9''" "''R3''" "[]" "(''CS101'', (''Mon_9'', ''R1''))" "[]"]
    violates_iff_conflict [of
      "[''CS101'' \<mapsto> \<lparr>cid = ''CS101'', teacher = ''T1'', groups = [''G1'', ''G2''], csize = 40\<rparr>,
        ''MA101'' \<mapsto> \<lparr>cid = ''MA101'', teacher = ''T2'', groups = [''G1''], csize = 30\<rparr>]"
      "''MA101''" "\<lparr>cid = ''MA101'', teacher = ''T2'', groups = [''G1''], csize = 30\<rparr>"
      "[(''CS101'', (''Mon_9'', ''R1''))]" "''Mon_11''" "''R1''" "[]" "(''CS101'', (''Mon_9'', ''R1''))" "[]"]
  by (simp add: conflict_def)

text \<open>
  The claim as it is written also says that \<open>violates\<close> is total over all inputs.  It
  is not: the lookup of the variable in \<open>course_by_id\<close> comes first, and for a variable
  that the table does not hold it raises \<open>KeyError\<close>.
\<close>

theorem violates_not_total:
  "violates [] Map.empty ''CS101'' (''Mon_9'', ''R1'') = Inl KeyError"
  by (simp add: violates_def)

subsection \<open>select\_mrv\<close>

text \<open>
  Claim C8 says that \<open>select_mrv\<close> returns the unassigned variable with the smallest
  current domain, the earliest one of the list among equals, and none exactly when the
  list is empty.  The code does so as long as the domains have fewer than \<open>10 ^ 9\<close>
  values (\<open>select_mrv_below_sentinel\<close>, \<open>select_mrv_none_iff_empty\<close>), as the comment
  above it says (MRV: variable with smallest domain).  \<open>best_size\<close> starts at \<open>10 ^ 9\<close> and a
  variable is taken only when its size is below it, so for a single variable whose domain
  has \<open>10 ^ 9\<close> values, a non-empty list, the code returns none instead of the variable.
\<close>

theorem select_mrv_none_on_nonempty:
  "select_mrv [''CS101''] [''CS101'' \<mapsto> replicate (10 ^ 9) (''Mon_9'', ''R1'')] = Inr None"
  by (simp add: select_mrv_def)

subsection \<open>lcv\_order\<close>

text \<open>
  Claim C7, as the code has it: for a variable that has a domain and a course, and
  unassigned variables that all have a domain and a course, \<open>lcv_order\<close> returns the
  values of the variable's domain (the same values, each as often), sorted by ascending
  elimination score, values of equal score in the order of the domain.  The score of a
  value counts the entries of the unassigned list, other than the variable, whose domain
  has some value with the same timeslot that conflicts with it (the same room, or the two
  courses share the teacher or a group); the scan of a domain stops at the first such
  value, so each entry counts once at most.
\<close>

theorem lcv_order_sorted_by_score:
  assumes "doms var = Some vals" and "var \<in> dom cbi" and "set unassigned \<subseteq> dom cbi"
    and "set unassigned \<subseteq> dom doms"
  shows "\<exists>r. lcv_order var doms unassigned cbi = Inr r \<and> mset r = mset vals \<and>
            sorted (map (elimination_score cbi doms var unassigned) r) \<and>
            (\<forall>k. filter (\<lambda>v. elimination_score cbi doms var unassigned v = k) r =
                 filter (\<lambda>v. elimination_score cbi doms var unassigned v = k) vals)"
  by (simp add: lcv_order_known[OF assms] sort_key_stable)

theorem lcv_order_sorted_by_score_witness:
  "[''CS101'' \<mapsto> [(''Mon_9'', ''R1''), (''Mon_11'', ''R1''), (''Tue_9'', ''R1'')],
    ''PH101'' \<mapsto> [(''Mon_9'', ''R2''), (''Mon_9'', ''R1'')]] ''CS101''
     = Some [(''Mon_9'', ''R1''), (''Mon_11'', ''R1''), (''Tue_9'', ''R1'')] \<and>
   lcv_order ''CS101''
     [''CS101'' \<mapsto> [(''Mon_9'', ''R1''), (''Mon_11'', ''R1''), (''Tue_9'', ''R1'')],
      ''PH101'' \<mapsto> [(''Mon_9'', ''R2''), (''Mon_9'', ''R1'')]]
     [''CS101'', ''PH101'']
     [''CS101'' \<mapsto> \<lparr>cid = ''CS101'', teacher = ''T1'', groups = [''G1''], csize = 40\<rparr>,
      ''PH101'' \<mapsto> \<lparr>cid = ''PH101'', teacher = ''T3'', groups = [''G2''], csize = 25\<rparr>]
   = Inr [(''Mon_11'', ''R1''), (''Tue_9'', ''R1''), (''Mon_9'', ''R1'')]"
  using lcv_order_sorted_by_score [of
      "[''CS101'' \<mapsto> [(''Mon_9'', ''R1''), (''Mon_11'', ''R1''), (''Tue_9'', ''R1'')],
        ''PH101'' \<mapsto> [(''Mon_9'', ''R2''), (''Mon_9'', ''R1'')]]"
      "''CS101''" "[(''Mon_9'', ''R1''), (''Mon_11'', ''R1''), (''Tue_9'', ''R1'')]"
      "[''CS101'' \<mapsto> \<lparr>cid = ''CS101'', teacher = ''T1'', groups = [''G1''], csize = 40\<rparr>,
        ''PH101'' \<mapsto> \<lparr>cid = ''PH101'', teacher = ''T3'', groups = [''G2''], csize = 25\<rparr>]"
      "[''CS101'', ''PH101'']"]
  by (simp add: lcv_order_def)

text \<open>
  The claim as it is written tests, in the domain of another variable, the first value
  with the candidate's timeslot only.  For two courses without a common teacher or group,
  one timeslot and two rooms, the first value of the other course with the timeslot is in
  room \<open>R1\<close>: by the claim's words the candidate in \<open>R2\<close> has score 0 and comes
  first.  The code scans on to the value in \<open>R2\<close>, gives both candidates the score 1
  and returns the domain in its order.
\<close>

theorem lcv_order_scans_past_first_value:
  "lcv_order ''C1'' (build_domains pair_courses one_slot two_rooms) [''C1'', ''C2''] (by_id pair_courses)
     = Inr [(''Mon_9'', ''R1''), (''Mon_9'', ''R2'')] \<and>
   map (first_value_score (by_id pair_courses) (build_domains pair_courses one_slot two_rooms) ''C1''
          [''C1'', ''C2'']) [(''Mon_9'', ''R1''), (''Mon_9'', ''R2'')] = [1, 0] \<and>
   sort_key (first_value_score (by_id pair_courses) (build_domains pair_courses one_slot two_rooms) ''C1''
          [''C1'', ''C2'']) [(''Mon_9'', ''R1''), (''Mon_9'', ''R2'')]
     = [(''Mon_9'', ''R2''), (''Mon_9'', ''R1'')]"
  by (simp add: lcv_order_def first_value_score_def first_value_hit_def by_id_def build_domains_def
      course_domain_def pair_courses_def one_slot_def two_rooms_def)

subsection \<open>Successful results\<close>

text \<open>
  Claim C1: whenever \<open>backtrack_search\<close> reports found, in plain mode or with forward
  checking, any two courses with different ids that the solution puts in the same timeslot
  have different teachers, disjoint group sets and different rooms.
\<close>

theorem solution_has_no_conflict:
  assumes "backtrack_search clk courses domains_init fc time_limit_ms = Inr r" and "found r"
  shows "\<forall>c1 \<in> set courses. \<forall>c2 \<in> set courses. \<forall>ts r1 r2.
           cid c1 \<noteq> cid c2 \<and> map_of (solution r) (cid c1) = Some (ts, r1) \<and>
           map_of (solution r) (cid c2) = Some (ts, r2) \<longrightarrow>
             teacher c1 \<noteq> teacher c2 \<and> set (groups c1) \<inter> set (groups c2) = {} \<and> r1 \<noteq> r2"
proof (intro ballI allI impI)
  fix c1 c2 ts r1 r2
  assume c: "c1 \<in> set courses" "c2 \<in> set courses"
    and a: "cid c1 \<noteq> cid c2 \<and> map_of (solution r) (cid c1) = Some (ts, r1) \<and>
           map_of (solution r) (cid c2) = Some (ts, r2)"
  let ?env = "search_env_of clk courses fc time_limit_ms"
  from found_complete_good[OF assms] have g: "consistent (by_id courses) (solution r)"
    and d: "distinct (map cid courses)" by (simp_all add: good_asg_def)
  from a have e: "(cid c1, ts, r1) \<in> set (solution r)" "(cid c2, ts, r2) \<in> set (solution r)"
    by (auto dest: map_of_SomeD)
  from g e a obtain c1' c2' where
    "by_id courses (cid c1) = Some c1'" "by_id courses (cid c2) = Some c2'" "teacher c1' \<noteq> teacher c2'"
    "set (groups c1') \<inter> set (groups c2') = {}" "r1 \<noteq> r2"
    unfolding consistent_def by fastforce
  with by_id_distinct[OF d c(1)] by_id_distinct[OF d c(2)]
  show "teacher c1 \<noteq> teacher c2 \<and> set (groups c1) \<inter> set (groups c2) = {} \<and> r1 \<noteq> r2" by simp
qed

theorem solution_has_no_conflict_witness:
  "backtrack_search zero_clock pair_courses (build_domains pair_courses one_slot two_rooms) False 20000 =
     Inr \<lparr>found = True, time_ms = 0, n_backtracks = 0, assignments_tried = 3,
          solution = [(''C1'', ''Mon_9'', ''R1''), (''C2'', ''Mon_9'', ''R2'')]\<rparr> \<and>
   teacher \<lparr>cid = ''C1'', teacher = ''T1'', groups = [''G1''], csize = 10\<rparr>
     \<noteq> teacher \<lparr>cid = ''C2'', teacher = ''T2'', groups = [''G2''], csize = 10\<rparr> \<and>
   set (groups \<lparr>cid = ''C1'', teacher = ''T1'', groups = [''G1''], csize = 10\<rparr>) \<inter>
     set (groups \<lparr>cid = ''C2'', teacher = ''T2'', groups = [''G2''], csize = 10\<rparr>) = {} \<and>
   ''R1'' \<noteq> ''R2''"
proof -
  note e = same_slot_plain
  have f: "found \<lparr>found = True, time_ms = 0, n_backtracks = 0, assignments_tried = 3,
          solution = [(''C1'', ''Mon_9'', ''R1''), (''C2'', ''Mon_9'', ''R2'')]\<rparr>" by simp
  from solution_has_no_conflict[OF e f, rule_format,
      of "\<lparr>cid = ''C1'', teacher = ''T1'', groups = [''G1''], csize = 10\<rparr>"
         "\<lparr>cid = ''C2'', teacher = ''T2'', groups = [''G2''], csize = 10\<rparr>" "''Mon_9''" "''R1''" "''R2''"] e
  show ?thesis by (simp add: pair_courses_def)
qed

text \<open>
  Claim C5: on the domains that \<open>build_domains\<close> makes from the courses, timeslots and
  rooms, whenever \<open>backtrack_search\<close> reports found, the initial domain of every course
  is the list of the (timeslot, room id) pairs whose room is large enough, timeslots first
  and rooms in the given order, and the solution gives every course a timeslot of the
  list and a room of the list that is large enough for it.
\<close>

theorem assigned_room_is_large_enough:
  assumes "backtrack_search clk courses (build_domains courses timeslots rooms) fc time_limit_ms = Inr r"
    and "found r"
  shows "\<forall>c \<in> set courses.
           build_domains courses timeslots rooms (cid c) =
             Some [(ts, rid rm). ts \<leftarrow> timeslots, rm \<leftarrow> rooms, capacity rm \<ge> csize c] \<and>
           (\<exists>ts rm. map_of (solution r) (cid c) = Some (ts, rid rm) \<and> ts \<in> set timeslots \<and>
              rm \<in> set rooms \<and> capacity rm \<ge> csize c)"
proof
  fix c assume c: "c \<in> set courses"
  let ?env = "search_env_of clk courses fc time_limit_ms"
  let ?D0 = "build_domains courses timeslots rooms"
  from found_complete_good[OF assms] have g: "distinct (map fst (solution r))"
    and d: "distinct (map cid courses)" and all: "fst ` set (solution r) = set (map cid courses)"
    by (simp_all add: good_asg_def)
  from assms(1) obtain s where s: "recurse2 (Suc (length courses)) ?env (initial_state ?D0) = Inr (found r, s)"
    "solution r = assignment s" by (rule backtrack_search_Inr)
  have "kept ?D0 (initial_state ?D0)" by (auto simp: kept_def inside_def asg_from_def)
  from recurse2_kept[OF s(1) this] have fr: "asg_from ?D0 (solution r)" by (simp add: kept_def s(2))
  have D0: "?D0 (cid c) = Some (course_domain c timeslots rooms)" by (rule build_domains_distinct[OF d c])
  from all c obtain e where e: "e \<in> set (solution r)" "fst e = cid c" by force
  from fr e D0 have "snd e \<in> set (course_domain c timeslots rooms)" by (auto simp: asg_from_def)
  with course_domain_iff[of "fst (snd e)" "snd (snd e)" c timeslots rooms]
  obtain rm where rm: "fst (snd e) \<in> set timeslots" "rm \<in> set rooms" "rid rm = snd (snd e)"
    "csize c \<le> capacity rm" by auto
  define ts where "ts = fst (snd e)"
  have v: "snd e = (ts, rid rm)" "ts \<in> set timeslots" "rm \<in> set rooms" "csize c \<le> capacity rm"
    using rm by (simp_all add: ts_def)
  have "e = (cid c, ts, rid rm)" using e(2) v(1) by (simp add: prod_eq_iff)
  with e(1) have "(cid c, ts, rid rm) \<in> set (solution r)" by simp
  with g have "map_of (solution r) (cid c) = Some (ts, rid rm)" by (simp add: map_of_is_SomeI)
  with v D0 show "?D0 (cid c) = Some [(ts, rid rm). ts \<leftarrow> timeslots, rm \<leftarrow> rooms, capacity rm \<ge> csize c] \<and>
           (\<exists>ts rm. map_of (solution r) (cid c) = Some (ts, rid rm) \<and> ts \<in> set timeslots \<and>
              rm \<in> set rooms \<and> capacity rm \<ge> csize c)"
    by (auto simp: course_domain_def)
qed

theorem assigned_room_is_large_enough_witness:
  "backtrack_search zero_clock pair_courses (build_domains pair_courses one_slot two_rooms) False 20000 =
     Inr \<lparr>found = True, time_ms = 0, n_backtracks = 0, assignments_tried = 3,
          solution = [(''C1'', ''Mon_9'', ''R1''), (''C2'', ''Mon_9'', ''R2'')]\<rparr> \<and>
   build_domains pair_courses one_slot two_rooms ''C2'' = Some [(''Mon_9'', ''R1''), (''Mon_9'', ''R2'')] \<and>
   (\<exists>ts rm. map_of [(''C1'', ''Mon_9'', ''R1''), (''C2'', ''Mon_9'', ''R2'')] ''C2'' = Some (ts, rid rm) \<and>
      ts \<in> set one_slot \<and> rm \<in> set two_rooms \<and> capacity rm \<ge> 10)"
proof -
  note e = same_slot_plain
  have f: "found \<lparr>found = True, time_ms = 0, n_backtracks = 0, assignments_tried = 3,
          solution = [(''C1'', ''Mon_9'', ''R1''), (''C2'', ''Mon_9'', ''R2'')]\<rparr>" by simp
  have c: "\<lparr>cid = ''C2'', teacher = ''T2'', groups = [''G2''], csize = 10\<rparr> \<in> set pair_courses"
    by (simp add: pair_courses_def)
  from assigned_room_is_large_enough[OF e f, rule_format, OF c] e
  show ?thesis by (simp add: one_slot_def two_rooms_def)
qed

subsection \<open>Failed results\<close>

text \<open>
  Claim C10: whenever \<open>backtrack_search\<close> reports not found, by exhaustion or by
  timeout, the solution of the returned record is empty.
\<close>

theorem failure_exposes_no_assignment:
  assumes "backtrack_search clk courses domains_init fc time_limit_ms = Inr r" and "\<not> found r"
  shows "solution r = []"
proof -
  from assms(1) obtain s where s: "recurse2 (Suc (length courses)) (search_env_of clk courses fc time_limit_ms)
       (initial_state domains_init) = Inr (found r, s)" "solution r = assignment s"
    by (rule backtrack_search_Inr)
  from s(1) assms(2) have "recurse2 (Suc (length courses)) (search_env_of clk courses fc time_limit_ms)
       (initial_state domains_init) = Inr (False, s)" by simp
  from recurse2_assignment_failed[OF this] show ?thesis by (simp add: s(2))
qed

theorem failure_exposes_no_assignment_witness:
  "backtrack_search zero_clock triple_courses (build_domains triple_courses two_slots one_room) False 20000 =
     Inr \<lparr>found = False, time_ms = 0, n_backtracks = 5, assignments_tried = 10, solution = []\<rparr> \<and>
   solution \<lparr>found = False, time_ms = 0, n_backtracks = 5, assignments_tried = 10, solution = []\<rparr> = []"
proof -
  note e = triple_plain
  have f: "\<not> found \<lparr>found = False, time_ms = 0, n_backtracks = 5, assignments_tried = 10,
      solution = []\<rparr>" by simp
  from failure_exposes_no_assignment[OF e f] e show ?thesis by simp
qed

subsection \<open>The deadline\<close>

text \<open>
  Claim C2, as the code has it, for a clock that never runs backwards: once a deadline
  check has seen the budget exceeded (check number \<open>k\<close>), every call of \<open>recurse2\<close>
  that starts at or after it returns false at its own deadline check, without choosing a
  variable or trying a value; and no call during or after which that check was made
  returns true, so the failure reaches the caller of the search.
\<close>

theorem deadline_fails_every_later_call:
  assumes "mono (clock env)"
  shows "(timeout env k \<and> k \<le> tick s \<longrightarrow>
            recurse2 (Suc n) env s = Inr (False, s\<lparr>tick := Suc (tick s)\<rparr>)) \<and>
         (recurse2 n env s = Inr (b, s') \<and> k < tick s' \<and> timeout env k \<longrightarrow> \<not> b)"
proof (intro conjI impI)
  assume a: "timeout env k \<and> k \<le> tick s"
  then have "clock env k \<le> clock env (tick s)" using assms by (simp add: monoD)
  with a have "timeout env (tick s)" by (simp add: timeout_def)
  then show "recurse2 (Suc n) env s = Inr (False, s\<lparr>tick := Suc (tick s)\<rparr>)"
    by (simp add: recurse2_Suc)
next
  assume "recurse2 n env s = Inr (b, s') \<and> k < tick s' \<and> timeout env k"
  with recurse2_no_timeout[OF assms, of n s s'] show "\<not> b" by (cases b) auto
qed

theorem deadline_fails_every_later_call_witness:
  "mono (clock (search_env_of late_clock pair_courses True 500)) \<and>
   timeout (search_env_of late_clock pair_courses True 500) 1 \<and>
   recurse2 (Suc (Suc 0)) (search_env_of late_clock pair_courses True 500)
      ((initial_state clash_domains)\<lparr>tick := 1\<rparr>) =
     Inr (False, (initial_state clash_domains)\<lparr>tick := 2\<rparr>) \<and>
   recurse2 (Suc 0) (search_env_of late_clock pair_courses True 500)
      ((initial_state clash_domains)\<lparr>tick := 1\<rparr>) =
     Inr (False, (initial_state clash_domains)\<lparr>tick := 2\<rparr>)"
proof -
  have m: "mono (clock (search_env_of late_clock pair_courses True 500))"
    by (simp add: mono_def late_clock_def)
  from deadline_fails_every_later_call[OF m, of 1 "(initial_state clash_domains)\<lparr>tick := 1\<rparr>" "Suc 0" False
      "(initial_state clash_domains)\<lparr>tick := 2\<rparr>"] m
  show ?thesis by (simp add: timeout_def late_clock_def recurse2.simps initial_state_def)
qed

text \<open>
  The claim as it is written says that after the deadline is first seen exceeded no further
  value is tried.  The loop of a pending level goes on: for two courses with two values
  each, the first check (number 0) is in time and the second (number 1, made by the
  recursive call for the first value, when one value has been tried) is not; the search
  returns with two values tried, the second one after the deadline was seen, and with
  forward checking done for it.
\<close>

theorem deadline_does_not_stop_siblings:
  "\<not> timeout (search_env_of late_clock pair_courses True 500) 0 \<and>
   timeout (search_env_of late_clock pair_courses True 500) 1 \<and>
   backtrack_search late_clock pair_courses (build_domains pair_courses two_slots one_room) True 500 =
     Inr \<lparr>found = False, time_ms = 1000, n_backtracks = 1, assignments_tried = 2, solution = []\<rparr>"
  using late_pair by (simp add: timeout_def late_clock_def)

subsection \<open>Forward checking\<close>

text \<open>
  Claim C4, as the code has it, for course ids that are pairwise distinct: in forward
  checking mode, when a value passes \<open>violates\<close> and is assigned, every domain after the
  pruning is a subsequence of the domain before it; and when the attempt fails (a domain
  became empty, or the recursive call returned false), the next value is tried in a state
  whose domains are exactly those before the assignment and whose assignment has no entry
  for the variable.
\<close>

theorem failed_attempt_restores:
  assumes fc: "forward_checking env" and di: "distinct (course_ids env)" and du: "distinct unassigned"
    and vi: "violates (assignment s) (courses_by_id env) var v = Inr False"
    and ch: "forward_check (courses_by_id env) (AList.update var v (assignment s)) var unassigned
               Map.empty (domains s) = Inr (failure, saved, doms)"
    and fl: "failure \<or> recurse2 n env (s\<lparr>tries := tries s + 1,
               assignment := AList.update var v (assignment s), domains := doms\<rparr>) = Inr (False, s3)"
  shows "(\<forall>k. rel_option subseq (doms k) (domains s k)) \<and>
         (\<exists>s4. domains s4 = domains s \<and> assignment s4 = AList.delete var (assignment s) \<and>
            (\<forall>vals. try_vals n env var unassigned (v # vals) s = try_vals n env var unassigned vals s4))"
proof
  from ch fc have st: "fc_step env var v unassigned s = Inr (failure, saved, doms)"
    by (simp add: fc_step_def)
  from fc_step_le[OF st] show "\<forall>k. rel_option subseq (doms k) (domains s k)" by (simp add: doms_le_def)
  have re: "doms ++ saved = domains s" by (rule fc_step_restore[OF st du])
  show "\<exists>s4. domains s4 = domains s \<and> assignment s4 = AList.delete var (assignment s) \<and>
            (\<forall>vals. try_vals n env var unassigned (v # vals) s = try_vals n env var unassigned vals s4)"
  proof (cases failure)
    case True
    let ?s4 = "undo var saved (assigned var v doms s)"
    have "\<forall>vals. try_vals n env var unassigned (v # vals) s = try_vals n env var unassigned vals ?s4"
      by (subst try_vals_Cons) (simp add: vi st True)
    moreover have "domains ?s4 = domains s" using re by simp
    moreover have "assignment ?s4 = AList.delete var (assignment s)" by (simp add: delete_update_same)
    ultimately show ?thesis by blast
  next
    case False
    with fl have r: "recurse2 n env (assigned var v doms s) = Inr (False, s3)" by (simp add: assigned_def)
    let ?s4 = "undo var saved s3"
    have "\<forall>vals. try_vals n env var unassigned (v # vals) s = try_vals n env var unassigned vals ?s4"
      by (subst try_vals_Cons) (simp add: vi st False r)
    moreover have "domains ?s4 = domains s" using re recurse2_domains_failed[OF di r] by simp
    moreover have "assignment ?s4 = AList.delete var (assignment s)"
      using recurse2_assignment_failed[OF r] by (simp add: delete_update_same)
    ultimately show ?thesis by blast
  qed
qed

theorem failed_attempt_restores_witness:
  "forward_checking (search_env_of zero_clock pair_courses True 20000) \<and>
   distinct (course_ids (search_env_of zero_clock pair_courses True 20000)) \<and>
   distinct [''C1'', ''C2''] \<and>
   violates (assignment (initial_state clash_domains))
     (courses_by_id (search_env_of zero_clock pair_courses True 20000)) ''C1'' (''Mon_9'', ''R1'') = Inr False \<and>
   forward_check (courses_by_id (search_env_of zero_clock pair_courses True 20000))
     (AList.update ''C1'' (''Mon_9'', ''R1'') (assignment (initial_state clash_domains))) ''C1'' [''C1'', ''C2'']
     Map.empty (domains (initial_state clash_domains)) =
       Inr (True, [''C2'' \<mapsto> [(''Mon_9'', ''R1'')]], [''C1'' \<mapsto> [(''Mon_9'', ''R1'')], ''C2'' \<mapsto> []]) \<and>
   (\<forall>k. rel_option subseq ([''C1'' \<mapsto> [(''Mon_9'', ''R1'')], ''C2'' \<mapsto> []] k)
          (domains (initial_state clash_domains) k)) \<and>
   (\<exists>s4. domains s4 = domains (initial_state clash_domains) \<and>
      assignment s4 = AList.delete ''C1'' (assignment (initial_state clash_domains)) \<and>
      (\<forall>vals. try_vals 0 (search_env_of zero_clock pair_courses True 20000) ''C1'' [''C1'', ''C2'']
                 ((''Mon_9'', ''R1'') # vals) (initial_state clash_domains) =
               try_vals 0 (search_env_of zero_clock pair_courses True 20000) ''C1'' [''C1'', ''C2''] vals s4))"
proof -
  let ?env = "search_env_of zero_clock pair_courses True 20000"
  let ?s = "initial_state clash_domains"
  have h1: "forward_checking ?env" by simp
  have h2: "distinct (course_ids ?env)" by (simp add: pair_courses_def)
  have h3: "distinct [''C1'', ''C2'']" by simp
  have h4: "violates (assignment ?s) (courses_by_id ?env) ''C1'' (''Mon_9'', ''R1'') = Inr False"
    by (simp add: violates_def by_id_def pair_courses_def)
  have h5: "forward_check (courses_by_id ?env)
     (AList.update ''C1'' (''Mon_9'', ''R1'') (assignment ?s)) ''C1'' [''C1'', ''C2'']
     Map.empty (domains ?s) =
       Inr (True, [''C2'' \<mapsto> [(''Mon_9'', ''R1'')]], [''C1'' \<mapsto> [(''Mon_9'', ''R1'')], ''C2'' \<mapsto> []])"
    by (simp add: violates_def by_id_def pair_courses_def clash_domains_def)
  have h6: "True \<or> recurse2 0 ?env (?s\<lparr>tries := tries ?s + 1,
               assignment := AList.update ''C1'' (''Mon_9'', ''R1'') (assignment ?s),
               domains := [''C1'' \<mapsto> [(''Mon_9'', ''R1'')], ''C2'' \<mapsto> []]\<rparr>) = Inr (False, ?s)" by simp
  note t = failed_attempt_restores[OF h1 h2 h3 h4 h5 h6]
  show ?thesis
    by (intro conjI h1 h2 h3 h4 h5 t[THEN conjunct1] t[THEN conjunct2])
qed

text \<open>
  The claim as it is written has no condition on the ids.  When two courses have the same
  id, the id occurs twice in \<open>unassigned\<close>, and the second pass of the forward-checking
  loop overwrites the saved domain with the pruned one: after the failed attempt at the
  root the domain of \<open>X\<close> has lost a value.
\<close>

theorem duplicate_ids_lose_a_domain:
  "domains (initial_state twin_domains) ''X'' = Some [(''Mon_9'', ''R1''), (''Mon_11'', ''R1'')] \<and>
   (case recurse2 (Suc (length twin_courses)) (search_env_of zero_clock twin_courses True 20000)
           (initial_state twin_domains) of
      Inl e \<Rightarrow> None
    | Inr (ok, s) \<Rightarrow> Some (ok, domains s ''X'')) = Some (False, Some [(''Mon_11'', ''R1'')])"
  using twin_run by (simp add: twin_domains_def)

subsection \<open>Results and errors\<close>

text \<open>
  Claim C9, as the code has it: with a time limit of 0 ms and a first deadline check that
  reads a positive time, \<open>backtrack_search\<close> returns not found, with no value tried and no
  backtrack, for every list of courses, every initial domain and either mode: it fails at
  the first deadline check, before any lookup.
\<close>

theorem zero_budget_fails_at_first_check:
  assumes "0 < clk 0"
  shows "backtrack_search clk courses domains_init fc 0 =
           Inr \<lparr>found = False, time_ms = clk 1 * 1000, n_backtracks = 0, assignments_tried = 0,
                solution = []\<rparr>"
proof -
  from assms have "timeout (search_env_of clk courses fc 0) (tick (initial_state domains_init))"
    by (simp add: timeout_def)
  then show ?thesis by (simp add: backtrack_search_def recurse2_Suc)
qed

theorem zero_budget_fails_at_first_check_witness:
  "0 < ms_clock 0 \<and>
   backtrack_search ms_clock pair_courses (build_domains pair_courses two_slots one_room) True 0 =
     Inr \<lparr>found = False, time_ms = ms_clock 1 * 1000, n_backtracks = 0, assignments_tried = 0,
          solution = []\<rparr>"
proof -
  have h: "0 < ms_clock 0" by (simp add: ms_clock_def)
  from zero_budget_fails_at_first_check[of ms_clock pair_courses
      "build_domains pair_courses two_slots one_room" True, OF h] h
  show ?thesis by (intro conjI)
qed

text \<open>
  The claim as it is written also says that every path returns a result record.  When the
  initial domains lack the entry of a course and the first deadline check is in time,
  \<open>select_mrv\<close> raises \<open>KeyError\<close>.
\<close>

theorem missing_domain_raises:
  "backtrack_search zero_clock pair_courses Map.empty False 20000 = Inl KeyError"
  by (rule missing_domain)

subsection \<open>Plain mode and forward checking\<close>

text \<open>
  Claim C3 says that forward checking never reports more backtracks than plain mode on
  the same instance.  On the six courses below, without timeout, plain mode finds a
  solution without a backtrack and forward checking reports one: \<open>select_mrv\<close> and
  \<open>lcv_order\<close> read the pruned domains, and forward checking takes \<open>C\<close> before
  \<open>B\<close> and gives it a value that leaves \<open>B\<close> and \<open>D\<close> one common value.
\<close>

theorem forward_checking_can_backtrack_more:
  "backtrack_search zero_clock six_courses six_domains True 20000 =
     Inr \<lparr>found = True, time_ms = 0, n_backtracks = 1, assignments_tried = 8,
          solution = [(''A'', ''1'', ''R''), (''C'', ''3'', ''R''), (''B'', ''2'', ''R''),
                      (''D'', ''4'', ''R''), (''E'', ''5'', ''R''), (''F'', ''7'', ''R'')]\<rparr> \<and>
   backtrack_search zero_clock six_courses six_domains False 20000 =
     Inr \<lparr>found = True, time_ms = 0, n_backtracks = 0, assignments_tried = 10,
          solution = [(''A'', ''1'', ''R''), (''B'', ''4'', ''R''), (''D'', ''2'', ''R''),
                      (''C'', ''3'', ''R''), (''E'', ''5'', ''R''), (''F'', ''7'', ''R'')]\<rparr>"
  by (intro conjI six_fc six_plain)

text \<open>
  Claim C3, amended: on the two scenarios of the specification (two, and three, courses
  without a common teacher or group, two timeslots, one room) forward checking reports no
  more backtracks than plain mode.
\<close>

theorem dominance_on_the_scenarios:
  "(\<exists>r1 r0.
      backtrack_search zero_clock pair_courses (build_domains pair_courses two_slots one_room) True 20000
        = Inr r1 \<and>
      backtrack_search zero_clock pair_courses (build_domains pair_courses two_slots one_room) False 20000
        = Inr r0 \<and> n_backtracks r1 \<le> n_backtracks r0) \<and>
   (\<exists>r1 r0.
      backtrack_search zero_clock triple_courses (build_domains triple_courses two_slots one_room) True 20000
        = Inr r1 \<and>
      backtrack_search zero_clock triple_courses (build_domains triple_courses two_slots one_room) False 20000
        = Inr r0 \<and> n_backtracks r1 \<le> n_backtracks r0)"
  by (simp add: pair_fc pair_plain triple_fc triple_plain)

end
